theory Spec2Isabelle
  imports Main "HOL-Library.Signed_Division"
begin

section \<open>Configuration, codes and offers\<close>

text \<open>
  The globals \<open>DIGITS\<close>, \<open>CODE_LENGTH\<close> and \<open>THREADS\<close> of \<open>farmer_puzzle.c\<close> are
  set once by \<open>main\<close> and never changed afterwards; they are passed around as one record.
  \<open>main\<close> rejects every value \<open>\<le> 0\<close> of the three, so they are natural numbers here.
  A \<open>Code\<close> is a heap array of C \<open>int\<close>s; it is a list of integers whose length is
  the allocated length, and every access outside that length is the error \<open>OutOfBounds\<close>.
  All counters of the program stay between \<open>0\<close> and \<open>CODE_LENGTH\<close> or the number of
  codes, which are C \<open>int\<close>s themselves, so no counter wraps around.
\<close>

record config =
  DIGITS :: nat
  CODE_LENGTH :: nat
  THREADS :: nat

type_synonym Code = "int list"

record Offer =
  goats :: int
  chickens :: int

datatype error = OutOfBounds | NullDeref | DivByZero | Overflow

text \<open>The macro \<open>#define min(a, b) (a < b ? a : b)\<close>.\<close>

definition min_macro :: "int \<Rightarrow> int \<Rightarrow> int" where
  "min_macro a b = (if a < b then a else b)"

text \<open>A C \<open>int\<close> used as an index into an array of the given length.\<close>

definition in_bounds :: "'a list \<Rightarrow> int \<Rightarrow> bool" where
  "in_bounds xs k \<longleftrightarrow> 0 \<le> k \<and> nat k < length xs"

section \<open>\<open>make_guess\<close>\<close>

text \<open>
  The first loop of \<open>make_guess\<close>: position \<open>i\<close> runs up to \<open>CODE_LENGTH\<close>; a match
  increments \<open>goats\<close>, a mismatch increments \<open>guess_digits[guess[i]]\<close> and
  \<open>code_digits[code[i]]\<close>.
\<close>

function count_digits ::
  "config \<Rightarrow> Code \<Rightarrow> Code \<Rightarrow> nat \<Rightarrow> int \<times> int list \<times> int list \<Rightarrow> error + (int \<times> int list \<times> int list)"
where
  "count_digits cfg guess code i (g, guess_digits, code_digits) =
    (if i < CODE_LENGTH cfg then
       (if length guess \<le> i \<or> length code \<le> i then Inl OutOfBounds
        else if guess ! i = code ! i then
          count_digits cfg guess code (i + 1) (g + 1, guess_digits, code_digits)
        else if in_bounds guess_digits (guess ! i) \<and> in_bounds code_digits (code ! i) then
          count_digits cfg guess code (i + 1)
            (g,
             guess_digits[nat (guess ! i) := guess_digits ! nat (guess ! i) + 1],
             code_digits[nat (code ! i) := code_digits ! nat (code ! i) + 1])
        else Inl OutOfBounds)
     else Inr (g, guess_digits, code_digits))"
  by pat_completeness auto
termination
  by (relation "measure (\<lambda>(cfg, guess, code, i, st). CODE_LENGTH cfg - i)") auto

declare count_digits.simps [simp del]

text \<open>The second loop: \<open>chickens += min(guess_digits[i], code_digits[i])\<close> for every digit.\<close>

function sum_min :: "config \<Rightarrow> int list \<Rightarrow> int list \<Rightarrow> nat \<Rightarrow> int \<Rightarrow> error + int" where
  "sum_min cfg guess_digits code_digits i c =
    (if i < DIGITS cfg then
       (if length guess_digits \<le> i \<or> length code_digits \<le> i then Inl OutOfBounds
        else sum_min cfg guess_digits code_digits (i + 1)
               (c + min_macro (guess_digits ! i) (code_digits ! i)))
     else Inr c)"
  by pat_completeness auto
termination
  by (relation "measure (\<lambda>(cfg, gd, cd, i, c). DIGITS cfg - i)") auto

declare sum_min.simps [simp del]

definition make_guess :: "config \<Rightarrow> Code \<Rightarrow> Code \<Rightarrow> error + Offer" where
  "make_guess cfg guess code =
    (case count_digits cfg guess code 0
            (0, replicate (DIGITS cfg) 0, replicate (DIGITS cfg) 0) of
       Inl e \<Rightarrow> Inl e
     | Inr (g, guess_digits, code_digits) \<Rightarrow>
         (case sum_min cfg guess_digits code_digits 0 0 of
            Inl e \<Rightarrow> Inl e
          | Inr c \<Rightarrow> Inr \<lparr>goats = g, chickens = c\<rparr>))"

text \<open>
  A code the program can compare: \<open>CODE_LENGTH\<close> symbols, each in \<open>[0, DIGITS)\<close>.
\<close>

definition valid_code :: "config \<Rightarrow> Code \<Rightarrow> bool" where
  "valid_code cfg c \<longleftrightarrow>
     length c = CODE_LENGTH cfg \<and> list_all (\<lambda>d. 0 \<le> d \<and> d < int (DIGITS cfg)) c"

subsection \<open>The feedback as the specification words it\<close>

text \<open>
  \<open>exact_matches\<close>: the number of positions where guess and target hold the same symbol.
  \<open>remaining_count\<close>: how often a symbol value occurs in a sequence at the positions
  that are not exact. \<open>partial_matches\<close>: the sum over the symbol values of the minimum
  of the two remaining counts.
\<close>

definition exact_matches :: "nat \<Rightarrow> Code \<Rightarrow> Code \<Rightarrow> int" where
  "exact_matches n guess target =
     int (length (filter (\<lambda>i. guess ! i = target ! i) [0..<n]))"

definition remaining_count :: "nat \<Rightarrow> Code \<Rightarrow> Code \<Rightarrow> Code \<Rightarrow> int \<Rightarrow> int" where
  "remaining_count n guess target xs v =
     int (length (filter (\<lambda>i. guess ! i \<noteq> target ! i \<and> xs ! i = v) [0..<n]))"

definition partial_matches :: "nat \<Rightarrow> nat \<Rightarrow> Code \<Rightarrow> Code \<Rightarrow> int" where
  "partial_matches d n guess target =
     (\<Sum>v\<leftarrow>[0..<d]. min (remaining_count n guess target guess (int v))
                        (remaining_count n guess target target (int v)))"

text \<open>
  The stop test of the session loop in \<open>main\<close>: \<open>if (offer.goats == CODE_LENGTH) break;\<close>.
\<close>

definition solved :: "config \<Rightarrow> Offer \<Rightarrow> bool" where
  "solved cfg offer \<longleftrightarrow> goats offer = int (CODE_LENGTH cfg)"

section \<open>\<open>int_to_code\<close>\<close>

text \<open>
  \<open>num % DIGITS\<close> and \<open>num /= DIGITS\<close> are C's truncating operations (\<open>smod\<close>, \<open>sdiv\<close>);
  \<open>index\<close> is a C \<open>int\<close> that the loop decrements without a test, so a number with more
  than \<open>CODE_LENGTH\<close> digits writes in front of the array.
\<close>

function int_to_code_loop :: "config \<Rightarrow> int \<Rightarrow> int \<Rightarrow> Code \<Rightarrow> error + Code" where
  "int_to_code_loop cfg num index code =
    (if num \<noteq> 0 then
       (if DIGITS cfg = 0 then Inl DivByZero
        else if in_bounds code index then
          int_to_code_loop cfg (num sdiv int (DIGITS cfg)) (index - 1)
            (code[nat index := num smod int (DIGITS cfg)])
        else Inl OutOfBounds)
     else Inr code)"
  by pat_completeness auto
termination
  by (relation "measure (\<lambda>(cfg, num, index, code). nat (index + 1))")
     (auto simp: in_bounds_def)

declare int_to_code_loop.simps [simp del]

definition int_to_code :: "config \<Rightarrow> int \<Rightarrow> error + Code" where
  "int_to_code cfg num =
     int_to_code_loop cfg num (int (CODE_LENGTH cfg) - 1) (replicate (CODE_LENGTH cfg) 0)"

text \<open>
  Reading a sequence back as a number, in the specification's words: a mixed-radix number
  in base \<open>alphabet_size\<close>, most significant digit first.
\<close>

definition code_to_int :: "nat \<Rightarrow> Code \<Rightarrow> int" where
  "code_to_int d c = foldl (\<lambda>acc x. acc * int d + x) 0 c"

section \<open>The candidate list\<close>

text \<open>
  \<open>all_codes\<close> is the array of nodes; a \<open>CodeNode *\<close> is \<open>None\<close> for \<open>NULL\<close> or the
  offset of a node in \<open>all_codes\<close>. \<open>possible_codes\<close> is the head of the linked list of
  the remaining codes. \<open>next_guess\<close> and \<open>next_guess_score\<close> are the shared best guess.
  The code arrays are written once, when they are built, so a node holds its code by value.
\<close>

record CodeNode =
  node_code :: Code
  node_next :: "nat option"

record globals =
  all_codes :: "CodeNode list"
  possible_codes :: "nat option"
  next_guess :: "Code option"
  next_guess_score :: int

definition set_next :: "globals \<Rightarrow> nat \<Rightarrow> nat option \<Rightarrow> globals" where
  "set_next s a p = s\<lparr>all_codes := (all_codes s)[a := (all_codes s ! a)\<lparr>node_next := p\<rparr>]\<rparr>"

text \<open>
  The nodes reached from a pointer by following \<open>next\<close> up to \<open>NULL\<close>, and the remaining
  candidates of a state: the list that starts at \<open>possible_codes\<close>.
\<close>

fun chain :: "CodeNode list \<Rightarrow> nat option \<Rightarrow> nat list \<Rightarrow> bool" where
  "chain h p [] \<longleftrightarrow> p = None"
| "chain h p (a # as) \<longleftrightarrow> p = Some a \<and> a < length h \<and> chain h (node_next (h ! a)) as"

definition remaining :: "globals \<Rightarrow> nat list \<Rightarrow> bool" where
  "remaining s xs \<longleftrightarrow> chain (all_codes s) (possible_codes s) xs"

definition members :: "globals \<Rightarrow> nat list \<Rightarrow> Code set" where
  "members s xs = set (map (\<lambda>a. node_code (all_codes s ! a)) xs)"

definition valid_nodes :: "config \<Rightarrow> globals \<Rightarrow> nat list \<Rightarrow> bool" where
  "valid_nodes cfg s xs \<longleftrightarrow> list_all (\<lambda>a. valid_code cfg (node_code (all_codes s ! a))) xs"

section \<open>\<open>remove_impossible_codes\<close>\<close>

text \<open>The inner loop that compares the current code with the guess, with its \<open>break\<close>.\<close>

function code_is_guess :: "config \<Rightarrow> Code \<Rightarrow> Code \<Rightarrow> nat \<Rightarrow> error + bool" where
  "code_is_guess cfg guess curr_code i =
    (if i < CODE_LENGTH cfg then
       (if length guess \<le> i \<or> length curr_code \<le> i then Inl OutOfBounds
        else if guess ! i \<noteq> curr_code ! i then Inr False
        else code_is_guess cfg guess curr_code (i + 1))
     else Inr True)"
  by pat_completeness auto
termination
  by (relation "measure (\<lambda>(cfg, guess, curr_code, i). CODE_LENGTH cfg - i)") auto

declare code_is_guess.simps [simp del]

text \<open>
  The \<open>while (curr != NULL)\<close> loop. It follows \<open>next\<close> pointers, so on a cyclic list it does
  not return: the result \<open>None\<close>. The loop state is the globals, \<open>prev\<close>, \<open>curr\<close> and
  \<open>possible_code_count\<close>.
\<close>

partial_function (option) prune_loop ::
  "config \<Rightarrow> Code \<Rightarrow> Offer \<Rightarrow> globals \<Rightarrow> nat option \<Rightarrow> nat option \<Rightarrow> int \<Rightarrow>
     (error + globals \<times> nat option \<times> int) option"
where
  "prune_loop cfg guess offer s prev cur possible_code_count =
    (case cur of
       None \<Rightarrow> Some (Inr (s, prev, possible_code_count))
     | Some c \<Rightarrow>
        (if length (all_codes s) \<le> c then Some (Inl OutOfBounds)
         else case make_guess cfg guess (node_code (all_codes s ! c)) of
           Inl e \<Rightarrow> Some (Inl e)
         | Inr possible_offer \<Rightarrow>
            (case code_is_guess cfg guess (node_code (all_codes s ! c)) 0 of
               Inl e \<Rightarrow> Some (Inl e)
             | Inr is_guess \<Rightarrow>
                if goats possible_offer \<noteq> goats offer \<or>
                   chickens possible_offer \<noteq> chickens offer \<or> is_guess
                then
                  (if cur = possible_codes s then
                     prune_loop cfg guess offer
                       (s\<lparr>possible_codes := node_next (all_codes s ! c)\<rparr>)
                       prev (node_next (all_codes s ! c)) possible_code_count
                   else
                     (case prev of
                        None \<Rightarrow> Some (Inl NullDeref)
                      | Some p \<Rightarrow>
                          if length (all_codes s) \<le> p then Some (Inl OutOfBounds)
                          else prune_loop cfg guess offer
                                 (set_next s p (node_next (all_codes s ! c)))
                                 prev
                                 (node_next
                                   (all_codes (set_next s p (node_next (all_codes s ! c))) ! c))
                                 possible_code_count))
                else
                  prune_loop cfg guess offer s cur (node_next (all_codes s ! c))
                    (possible_code_count + 1))))"

declare prune_loop.simps [code]

text \<open>
  After the loop the function executes \<open>prev->next = NULL\<close> without a test of \<open>prev\<close>, and
  returns the count.
\<close>

definition remove_impossible_codes ::
  "config \<Rightarrow> Code \<Rightarrow> Offer \<Rightarrow> globals \<Rightarrow> (error + globals \<times> int) option"
where
  "remove_impossible_codes cfg guess offer s =
    (case prune_loop cfg guess offer s None (possible_codes s) 0 of
       None \<Rightarrow> None
     | Some (Inl e) \<Rightarrow> Some (Inl e)
     | Some (Inr (s', prev, possible_code_count)) \<Rightarrow>
        (case prev of
           None \<Rightarrow> Some (Inl NullDeref)
         | Some p \<Rightarrow>
             if length (all_codes s') \<le> p then Some (Inl OutOfBounds)
             else Some (Inr (set_next s' p None, possible_code_count))))"

text \<open>
  The test that keeps a candidate, as the specification words it: the evaluator gives the
  observed feedback and the candidate is not the played guess.
\<close>

definition consistent :: "config \<Rightarrow> Code \<Rightarrow> Offer \<Rightarrow> Code \<Rightarrow> bool" where
  "consistent cfg guess offer c \<longleftrightarrow>
     (case make_guess cfg guess c of
        Inl e \<Rightarrow> False
      | Inr possible_offer \<Rightarrow>
          goats possible_offer = goats offer \<and> chickens possible_offer = chickens offer)
     \<and> c \<noteq> guess"

section \<open>\<open>worker\<close>\<close>

text \<open>
  \<open>int CODE_COUNT = pow(DIGITS, CODE_LENGTH)\<close>: the power is computed as a \<open>double\<close> and
  converted to \<open>int\<close>. As long as the power is at most \<open>INT_MAX = 2147483647\<close> the
  conversion gives the power itself; a larger value does not fit an \<open>int\<close>, the conversion
  is undefined, and the model returns the error \<open>Overflow\<close>.
\<close>

definition CODE_COUNT :: "config \<Rightarrow> error + int" where
  "CODE_COUNT cfg =
    (if int (DIGITS cfg) ^ CODE_LENGTH cfg \<le> 2147483647
     then Inr (int (DIGITS cfg) ^ CODE_LENGTH cfg) else Inl Overflow)"

record Partition =
  p_index :: "nat option"
  p_size :: int

text \<open>
  \<open>Partition.index\<close> is the offset \<open>curr_code - all_codes\<close>, which the worker turns back
  into the pointer \<open>all_codes + index\<close> and uses for nothing else; the model keeps the
  pointer, so that the partition taken at \<open>NULL\<close> has the index \<open>None\<close>.

  The loop over \<open>possible_codes\<close> that evaluates the guess against every remaining
  code and increments \<open>offer_results[(offer.goats * CODE_LENGTH) + offer.chickens]\<close>. The
  table is the array that \<open>calloc(CODE_LENGTH * CODE_LENGTH, sizeof(int))\<close> returned, so a
  write at an index from \<open>CODE_LENGTH * CODE_LENGTH\<close> on is \<open>OutOfBounds\<close>.
\<close>

definition offer_index :: "config \<Rightarrow> Offer \<Rightarrow> int" where
  "offer_index cfg offer = (goats offer * int (CODE_LENGTH cfg)) + chickens offer"

partial_function (option) tally_offers ::
  "config \<Rightarrow> globals \<Rightarrow> Code \<Rightarrow> nat option \<Rightarrow> int list \<Rightarrow> (error + int list) option"
where
  "tally_offers cfg s guess curr_code offer_results =
    (case curr_code of
       None \<Rightarrow> Some (Inr offer_results)
     | Some c \<Rightarrow>
        (if length (all_codes s) \<le> c then Some (Inl OutOfBounds)
         else case make_guess cfg guess (node_code (all_codes s ! c)) of
           Inl e \<Rightarrow> Some (Inl e)
         | Inr offer \<Rightarrow>
             if in_bounds offer_results (offer_index cfg offer) then
               tally_offers cfg s guess (node_next (all_codes s ! c))
                 (offer_results[nat (offer_index cfg offer) :=
                    offer_results ! nat (offer_index cfg offer) + 1])
             else Some (Inl OutOfBounds)))"

declare tally_offers.simps [code]

text \<open>
  The loop that reads and clears every entry of the table and takes the minimum of the
  entries that are not \<open>0\<close>, starting from \<open>CODE_COUNT\<close>.
\<close>

function min_removed_loop :: "config \<Rightarrow> int list \<Rightarrow> nat \<Rightarrow> int \<Rightarrow> error + int list \<times> int" where
  "min_removed_loop cfg offer_results i min_removed =
    (if i < CODE_LENGTH cfg * CODE_LENGTH cfg then
       (if length offer_results \<le> i then Inl OutOfBounds
        else min_removed_loop cfg (offer_results[i := 0]) (i + 1)
               (if offer_results ! i = 0 then min_removed
                else min_macro (offer_results ! i) min_removed))
     else Inr (offer_results, min_removed))"
  by pat_completeness auto
termination
  by (relation "measure (\<lambda>(cfg, t, i, m). CODE_LENGTH cfg * CODE_LENGTH cfg - i)") auto

declare min_removed_loop.simps [simp del]

text \<open>
  The score of one guess: the body of the worker's outer loop up to \<open>min_removed\<close>.
  \<open>code_count\<close> is the worker's local \<open>CODE_COUNT\<close>, \<open>offer_results\<close> the block of memory
  the table lives in.
\<close>

definition score_guess ::
  "config \<Rightarrow> globals \<Rightarrow> int \<Rightarrow> nat \<Rightarrow> int list \<Rightarrow> (error + int list \<times> int) option"
where
  "score_guess cfg s code_count g offer_results =
    (if length (all_codes s) \<le> g then Some (Inl OutOfBounds)
     else case tally_offers cfg s (node_code (all_codes s ! g)) (possible_codes s) offer_results of
       None \<Rightarrow> None
     | Some (Inl e) \<Rightarrow> Some (Inl e)
     | Some (Inr tallied) \<Rightarrow> Some (min_removed_loop cfg tallied 0 code_count))"

partial_function (option) worker_loop ::
  "config \<Rightarrow> globals \<Rightarrow> int \<Rightarrow> int \<Rightarrow> int \<Rightarrow> int \<Rightarrow> nat option \<Rightarrow> nat option \<Rightarrow>
     int list \<Rightarrow> (error + int \<times> nat option) option"
where
  "worker_loop cfg s code_count sz codes_checked score best_guess curr_guess offer_results =
    (if codes_checked < sz then
       (case curr_guess of
          None \<Rightarrow> Some (Inr (score, best_guess))
        | Some g \<Rightarrow>
           (case score_guess cfg s code_count g offer_results of
              None \<Rightarrow> None
            | Some (Inl e) \<Rightarrow> Some (Inl e)
            | Some (Inr (cleared, min_removed)) \<Rightarrow>
                if min_removed > score then
                  worker_loop cfg s code_count sz (codes_checked + 1) min_removed curr_guess
                    (node_next (all_codes s ! g)) cleared
                else
                  worker_loop cfg s code_count sz (codes_checked + 1) score best_guess
                    (node_next (all_codes s ! g)) cleared))
     else Some (Inr (score, best_guess)))"

declare worker_loop.simps [code]

text \<open>
  The worker: the loop over its partition, then the update of the shared best guess under
  the lock, \<open>if (score > next_guess_score) { next_guess = best_guess->code; ... }\<close>.
\<close>

definition worker :: "config \<Rightarrow> globals \<Rightarrow> Partition \<Rightarrow> (error + globals) option" where
  "worker cfg s part =
    (case CODE_COUNT cfg of
       Inl e \<Rightarrow> Some (Inl e)
     | Inr code_count \<Rightarrow>
        (case worker_loop cfg s code_count (p_size part) 0 0 None (p_index part)
                (replicate (CODE_LENGTH cfg * CODE_LENGTH cfg) 0) of
           None \<Rightarrow> None
         | Some (Inl e) \<Rightarrow> Some (Inl e)
         | Some (Inr (score, best_guess)) \<Rightarrow>
            if score > next_guess_score s then
              (case best_guess of
                 None \<Rightarrow> Some (Inl NullDeref)
               | Some b \<Rightarrow>
                   if length (all_codes s) \<le> b then Some (Inl OutOfBounds)
                   else Some (Inr (s\<lparr>next_guess := Some (node_code (all_codes s ! b)),
                                     next_guess_score := score\<rparr>)))
            else Some (Inr s)))"

subsection \<open>The score as the specification words it\<close>

text \<open>
  The feedback of a guess against a candidate, the bucket of a feedback pair (the number
  of candidates of the remaining subset with that feedback), and the score: the minimum
  count over the buckets that some candidate falls into, which are the nonzero ones.
\<close>

definition feedback :: "config \<Rightarrow> Code \<Rightarrow> Code \<Rightarrow> int \<times> int" where
  "feedback cfg g c =
     (exact_matches (CODE_LENGTH cfg) g c, partial_matches (DIGITS cfg) (CODE_LENGTH cfg) g c)"

definition bucket_count :: "config \<Rightarrow> Code \<Rightarrow> Code list \<Rightarrow> int \<times> int \<Rightarrow> int" where
  "bucket_count cfg g cs b = int (length (filter (\<lambda>c. feedback cfg g c = b) cs))"

definition min_nonzero_bucket_count :: "config \<Rightarrow> Code \<Rightarrow> Code list \<Rightarrow> int" where
  "min_nonzero_bucket_count cfg g cs =
     Min (set (map (\<lambda>c. bucket_count cfg g cs (feedback cfg g c)) cs))"

section \<open>The partitioner and the session loop of \<open>main\<close>\<close>

text \<open>
  The construction of the universe: node \<open>i\<close> holds \<open>int_to_code(i)\<close> and points to node
  \<open>i + 1\<close>, the last node to \<open>NULL\<close>; \<open>possible_codes\<close> is the first node.
\<close>

function init_nodes :: "config \<Rightarrow> nat \<Rightarrow> nat \<Rightarrow> error + CodeNode list" where
  "init_nodes cfg code_count i =
    (if i < code_count then
       (case int_to_code cfg (int i) of
          Inl e \<Rightarrow> Inl e
        | Inr c \<Rightarrow>
           (case init_nodes cfg code_count (i + 1) of
              Inl e \<Rightarrow> Inl e
            | Inr nodes \<Rightarrow>
                Inr (\<lparr>node_code = c,
                      node_next = (if i = code_count - 1 then None else Some (i + 1))\<rparr>
                     # nodes)))
     else Inr [])"
  by pat_completeness auto
termination
  by (relation "measure (\<lambda>(cfg, code_count, i). code_count - i)") auto

declare init_nodes.simps [simp del]

definition init_globals :: "config \<Rightarrow> error + globals" where
  "init_globals cfg =
    (case CODE_COUNT cfg of
       Inl e \<Rightarrow> Inl e
     | Inr code_count \<Rightarrow>
        (case init_nodes cfg (nat code_count) 0 of
           Inl e \<Rightarrow> Inl e
         | Inr nodes \<Rightarrow>
             Inr \<lparr>all_codes = nodes, possible_codes = Some 0,
                  next_guess = None, next_guess_score = 0\<rparr>))"

text \<open>The loop that walks \<open>codes_per_thread\<close> steps along the list.\<close>

function advance :: "globals \<Rightarrow> int \<Rightarrow> int \<Rightarrow> nat option \<Rightarrow> error + nat option" where
  "advance s codes_per_thread i curr_code =
    (if i < codes_per_thread then
       (case curr_code of
          None \<Rightarrow> Inl NullDeref
        | Some a \<Rightarrow>
            if length (all_codes s) \<le> a then Inl OutOfBounds
            else advance s codes_per_thread (i + 1) (node_next (all_codes s ! a)))
     else Inr curr_code)"
  by pat_completeness auto
termination
  by (relation "measure (\<lambda>(s, q, i, p). nat (q - i))") auto

declare advance.simps [simp del]

text \<open>
  The loop over the threads: it fills \<open>partitions[thread]\<close> and, for all threads except the
  last one, walks on. The result is the array \<open>partitions\<close>.
\<close>

function make_partitions ::
  "config \<Rightarrow> globals \<Rightarrow> int \<Rightarrow> int \<Rightarrow> nat \<Rightarrow> nat option \<Rightarrow> error + Partition list"
where
  "make_partitions cfg s possible_code_count codes_per_thread thread curr_code =
    (if thread < THREADS cfg then
       (case (if int thread < int (THREADS cfg) - 1
              then advance s codes_per_thread 0 curr_code else Inr curr_code) of
          Inl e \<Rightarrow> Inl e
        | Inr next_code \<Rightarrow>
           (case make_partitions cfg s possible_code_count codes_per_thread (thread + 1)
                   next_code of
              Inl e \<Rightarrow> Inl e
            | Inr ps \<Rightarrow>
                Inr (\<lparr>p_index = curr_code,
                      p_size = min_macro possible_code_count
                                 ((int thread + 1) * codes_per_thread)
                               - (int thread * codes_per_thread)\<rparr> # ps)))
     else Inr [])"
  by pat_completeness auto
termination
  by (relation "measure (\<lambda>(cfg, s, m, q, thread, p). THREADS cfg - thread)") auto

declare make_partitions.simps [simp del]

definition partition_codes :: "config \<Rightarrow> globals \<Rightarrow> int \<Rightarrow> error + Partition list" where
  "partition_codes cfg s possible_code_count =
    (if THREADS cfg = 0 then Inl DivByZero
     else make_partitions cfg s possible_code_count
            (possible_code_count sdiv int (THREADS cfg)) 0 (possible_codes s))"

text \<open>
  The nodes a worker scores in a partition: it starts at the partition's node and follows
  \<open>next\<close> until it has checked \<open>size\<close> codes or reaches \<open>NULL\<close>.
\<close>

fun visit :: "CodeNode list \<Rightarrow> nat \<Rightarrow> nat option \<Rightarrow> nat list" where
  "visit h 0 p = []"
| "visit h (Suc n) p = (case p of None \<Rightarrow> [] | Some a \<Rightarrow> a # visit h n (node_next (h ! a)))"

definition partition_nodes :: "globals \<Rightarrow> Partition \<Rightarrow> nat list" where
  "partition_nodes s p = visit (all_codes s) (nat (p_size p)) (p_index p)"

text \<open>
  The threads run concurrently and only write the shared best guess, under the lock; the
  model runs them one after the other in the order of their creation, which is one of
  the schedules.
\<close>

fun run_workers :: "config \<Rightarrow> globals \<Rightarrow> Partition list \<Rightarrow> (error + globals) option" where
  "run_workers cfg s [] = Some (Inr s)"
| "run_workers cfg s (p # ps) =
    (case worker cfg s p of
       None \<Rightarrow> None
     | Some (Inl e) \<Rightarrow> Some (Inl e)
     | Some (Inr s') \<Rightarrow> run_workers cfg s' ps)"

text \<open>
  One iteration of the session loop: make the guess against the secret code, stop when
  all positions match, otherwise prune, partition, score and select the next guess.
\<close>

datatype round_result = Solved | NextGuess Code globals

text \<open>
  The choice of the next guess after the threads are joined. The assignment
  \<open>guess = next_guess\<close> copies a pointer; a \<open>NULL\<close> there would be dereferenced by the
  next \<open>make_guess\<close>, and the model reports it at the assignment.
\<close>

definition select_guess :: "globals \<Rightarrow> error + round_result" where
  "select_guess s =
    (if next_guess_score s = 0 then
       (case possible_codes s of
          None \<Rightarrow> Inl NullDeref
        | Some a \<Rightarrow>
            if length (all_codes s) \<le> a then Inl OutOfBounds
            else Inr (NextGuess (node_code (all_codes s ! a)) s))
     else
       (case next_guess s of
          None \<Rightarrow> Inl NullDeref
        | Some g \<Rightarrow> Inr (NextGuess g (s\<lparr>next_guess_score := 0\<rparr>))))"

definition play_round ::
  "config \<Rightarrow> globals \<Rightarrow> Code \<Rightarrow> Code \<Rightarrow> (error + round_result) option"
where
  "play_round cfg s guess code =
    (case make_guess cfg guess code of
       Inl e \<Rightarrow> Some (Inl e)
     | Inr offer \<Rightarrow>
        if solved cfg offer then Some (Inr Solved)
        else
          (case remove_impossible_codes cfg guess offer s of
             None \<Rightarrow> None
           | Some (Inl e) \<Rightarrow> Some (Inl e)
           | Some (Inr (s1, possible_code_count)) \<Rightarrow>
              (case partition_codes cfg s1 possible_code_count of
                 Inl e \<Rightarrow> Some (Inl e)
               | Inr parts \<Rightarrow>
                  (case run_workers cfg s1 parts of
                     None \<Rightarrow> None
                   | Some (Inl e) \<Rightarrow> Some (Inl e)
                   | Some (Inr s2) \<Rightarrow> Some (select_guess s2)))))"

section \<open>Auxiliary definitions for the proofs and concrete inputs\<close>

text \<open>
  The digit counters after the first loop of \<open>make_guess\<close> has run from position \<open>i\<close>,
  starting from the counters \<open>acc\<close>.
\<close>

definition digit_counts ::
  "nat \<Rightarrow> nat \<Rightarrow> Code \<Rightarrow> Code \<Rightarrow> Code \<Rightarrow> int list \<Rightarrow> nat \<Rightarrow> int list" where
  "digit_counts d n guess code xs acc i =
     map (\<lambda>v. acc ! v +
            int (length (filter (\<lambda>j. guess ! j \<noteq> code ! j \<and> xs ! j = int v) [i..<n])))
       [0..<d]"

definition cfg34 :: config where
  "cfg34 = \<lparr>DIGITS = 3, CODE_LENGTH = 4, THREADS = 2\<rparr>"

definition cfg22 :: config where
  "cfg22 = \<lparr>DIGITS = 2, CODE_LENGTH = 2, THREADS = 2\<rparr>"

text \<open>
  The state that \<open>main\<close> builds for two digits and length two: the four codes in the
  order of their index, each node linked to the next one.
\<close>

definition universe22 :: globals where
  "universe22 =
     \<lparr>all_codes = [\<lparr>node_code = [0, 0], node_next = Some 1\<rparr>,
                   \<lparr>node_code = [0, 1], node_next = Some 2\<rparr>,
                   \<lparr>node_code = [1, 0], node_next = Some 3\<rparr>,
                   \<lparr>node_code = [1, 1], node_next = None\<rparr>],
      possible_codes = Some 0, next_guess = None, next_guess_score = 0\<rparr>"

text \<open>
  The same state after the guess \<open>01\<close> was answered with no goat and two chickens: only
  the code \<open>10\<close> remains.
\<close>

definition pruned22 :: globals where
  "pruned22 =
     \<lparr>all_codes = [\<lparr>node_code = [0, 0], node_next = Some 1\<rparr>,
                   \<lparr>node_code = [0, 1], node_next = Some 2\<rparr>,
                   \<lparr>node_code = [1, 0], node_next = None\<rparr>,
                   \<lparr>node_code = [1, 1], node_next = None\<rparr>],
      possible_codes = Some 2, next_guess = None, next_guess_score = 0\<rparr>"

text \<open>
  The state of the first round for the initial guess \<open>00\<close> and the secret code \<open>01\<close>, after
  pruning: the codes \<open>01\<close> and \<open>10\<close> remain.
\<close>

definition two_left22 :: globals where
  "two_left22 =
     \<lparr>all_codes = [\<lparr>node_code = [0, 0], node_next = Some 1\<rparr>,
                   \<lparr>node_code = [0, 1], node_next = Some 2\<rparr>,
                   \<lparr>node_code = [1, 0], node_next = None\<rparr>,
                   \<lparr>node_code = [1, 1], node_next = None\<rparr>],
      possible_codes = Some 1, next_guess = None, next_guess_score = 0\<rparr>"

text \<open>
  Four digits and length one: the state that \<open>main\<close> builds, and the state of the first
  round for the initial guess \<open>0\<close> and the secret code \<open>1\<close> after pruning, where the codes
  \<open>1\<close>, \<open>2\<close> and \<open>3\<close> remain.
\<close>

definition cfg41 :: config where
  "cfg41 = \<lparr>DIGITS = 4, CODE_LENGTH = 1, THREADS = 2\<rparr>"

definition universe41 :: globals where
  "universe41 =
     \<lparr>all_codes = [\<lparr>node_code = [0], node_next = Some 1\<rparr>,
                   \<lparr>node_code = [1], node_next = Some 2\<rparr>,
                   \<lparr>node_code = [2], node_next = Some 3\<rparr>,
                   \<lparr>node_code = [3], node_next = None\<rparr>],
      possible_codes = Some 0, next_guess = None, next_guess_score = 0\<rparr>"

definition three_left41 :: globals where
  "three_left41 = universe41\<lparr>possible_codes := Some 1\<rparr>"

definition cfg223 :: config where
  "cfg223 = \<lparr>DIGITS = 2, CODE_LENGTH = 2, THREADS = 3\<rparr>"

text \<open>The pointer to the last node of a list of nodes, \<open>NULL\<close> for the empty list.\<close>

definition last_opt :: "nat list \<Rightarrow> nat option" where
  "last_opt xs = (if xs = [] then None else Some (last xs))"

section \<open>The feedback evaluator\<close>

lemma min_macro_min: "min_macro a b = min a b"
  by (simp add: min_macro_def min_def)

lemma sum_min_spec:
  "length gd = DIGITS cfg \<Longrightarrow> length cd = DIGITS cfg \<Longrightarrow>
   sum_min cfg gd cd i c = Inr (c + (\<Sum>v\<leftarrow>[i..<DIGITS cfg]. min (gd ! v) (cd ! v)))"
proof (induction cfg gd cd i c rule: sum_min.induct)
  case (1 cfg gd cd i c)
  show ?case
  proof (cases "i < DIGITS cfg")
    case True
    then show ?thesis
      using 1 by (subst sum_min.simps) (simp add: upt_conv_Cons min_macro_min)
  next
    case False
    then show ?thesis by (subst sum_min.simps) simp
  qed
qed

lemma length_digit_counts [simp]: "length (digit_counts d n guess code xs acc i) = d"
  by (simp add: digit_counts_def)

lemma digit_counts_done: "n \<le> i \<Longrightarrow> length acc = d \<Longrightarrow> digit_counts d n guess code xs acc i = acc"
  by (simp add: digit_counts_def list_eq_iff_nth_eq)

lemma digit_counts_skip:
  "i < n \<Longrightarrow> guess ! i = code ! i \<Longrightarrow>
   digit_counts d n guess code xs acc i = digit_counts d n guess code xs acc (Suc i)"
  by (simp add: digit_counts_def upt_conv_Cons)

lemma digit_counts_step:
  assumes "i < n" "guess ! i \<noteq> code ! i" "in_bounds acc (xs ! i)" "length acc = d"
  shows "digit_counts d n guess code xs (acc[nat (xs ! i) := acc ! nat (xs ! i) + 1]) (Suc i)
         = digit_counts d n guess code xs acc i"
  using assms
  by (auto simp: digit_counts_def upt_conv_Cons in_bounds_def nth_list_update)

lemma count_digits_spec:
  assumes "length gd = DIGITS cfg" "length cd = DIGITS cfg"
    and "valid_code cfg guess" "valid_code cfg code"
  shows "count_digits cfg guess code i (g, gd, cd) =
     Inr (g + int (length (filter (\<lambda>j. guess ! j = code ! j) [i..<CODE_LENGTH cfg])),
          digit_counts (DIGITS cfg) (CODE_LENGTH cfg) guess code guess gd i,
          digit_counts (DIGITS cfg) (CODE_LENGTH cfg) guess code code cd i)"
  using assms
proof (induction cfg guess code i "(g, gd, cd)" arbitrary: g gd cd rule: count_digits.induct)
  case (1 cfg guess code i g gd cd)
  show ?case
  proof (cases "i < CODE_LENGTH cfg")
    case False
    then show ?thesis
      using 1(3,4) by (subst count_digits.simps) (simp add: digit_counts_done)
  next
    case True
    have len: "i < length guess" "i < length code"
      using True 1(5,6) by (simp_all add: valid_code_def)
    show ?thesis
    proof (cases "guess ! i = code ! i")
      case eq: True
      show ?thesis
        using True len eq 1(1)[OF True _ eq 1(3,4,5,6)]
        by (subst count_digits.simps) (simp add: upt_conv_Cons digit_counts_skip)
    next
      case neq: False
      have ib: "in_bounds gd (guess ! i)" "in_bounds cd (code ! i)"
        using len 1(3,4,5,6) by (auto simp: valid_code_def in_bounds_def list_all_length)
      show ?thesis
        using True len neq ib 1(2)[OF True _ neq _ _ _ 1(5,6)] 1(3,4)
        by (subst count_digits.simps) (simp add: upt_conv_Cons digit_counts_step)
    qed
  qed
qed

lemma make_guess_spec:
  assumes "valid_code cfg guess" "valid_code cfg code"
  shows "make_guess cfg guess code =
     Inr \<lparr>goats = exact_matches (CODE_LENGTH cfg) guess code,
          chickens = partial_matches (DIGITS cfg) (CODE_LENGTH cfg) guess code\<rparr>"
proof -
  have "(\<Sum>v\<leftarrow>[0..<DIGITS cfg].
           min (digit_counts (DIGITS cfg) (CODE_LENGTH cfg) guess code guess (replicate (DIGITS cfg) 0) 0 ! v)
               (digit_counts (DIGITS cfg) (CODE_LENGTH cfg) guess code code (replicate (DIGITS cfg) 0) 0 ! v))
        = partial_matches (DIGITS cfg) (CODE_LENGTH cfg) guess code"
    unfolding partial_matches_def remaining_count_def digit_counts_def
    by (rule arg_cong[where f = sum_list]) (simp add: list_eq_iff_nth_eq)
  then show ?thesis
    using assms
    by (simp add: make_guess_def count_digits_spec sum_min_spec exact_matches_def)
qed

text \<open>
  Claim C1. For valid codes \<open>guess\<close> and \<open>target\<close> (length \<open>CODE_LENGTH\<close>, symbols in
  \<open>[0, DIGITS)\<close>), \<open>make_guess\<close> returns the number of positions with the same symbol as
  \<open>goats\<close> and, as \<open>chickens\<close>, the sum over the symbol values of the minimum of the two
  counts of that value at the positions that are not exact. Repeated symbols are covered:
  nothing is assumed about the codes but their length and range.
\<close>

theorem make_guess_feedback:
  assumes "valid_code cfg guess" "valid_code cfg target"
  shows "make_guess cfg guess target =
     Inr \<lparr>goats = exact_matches (CODE_LENGTH cfg) guess target,
          chickens = partial_matches (DIGITS cfg) (CODE_LENGTH cfg) guess target\<rparr>"
  using assms by (rule make_guess_spec)

theorem make_guess_feedback_witness:
  "valid_code cfg34 [0, 0, 1, 2] \<and> valid_code cfg34 [0, 1, 0, 0] \<and>
   make_guess cfg34 [0, 0, 1, 2] [0, 1, 0, 0] = Inr \<lparr>goats = 1, chickens = 2\<rparr>"
proof -
  have v: "valid_code cfg34 [0, 0, 1, 2]" "valid_code cfg34 [0, 1, 0, 0]"
    by (simp_all add: valid_code_def cfg34_def)
  have e: "exact_matches 4 [0, 0, 1, 2] [0, 1, 0, 0] = 1"
    by code_simp
  have p: "partial_matches 3 4 [0, 0, 1, 2] [0, 1, 0, 0] = 2"
    by code_simp
  show ?thesis
    using v make_guess_feedback [OF v] e p by (simp add: cfg34_def)
qed

lemma sum_indicator_le:
  "(\<Sum>v\<leftarrow>[0..<d]. if k = int v then (1::int) else 0) \<le> 1"
proof -
  have "(\<Sum>v\<leftarrow>[0..<d]. if k = int v then (1::int) else 0)
        = (\<Sum>v\<in>{0..<d}. if k = int v then 1 else 0)"
    by (simp add: interv_sum_list_conv_sum_set_nat)
  also have "\<dots> = (\<Sum>v\<in>{0..<d}. if v = nat k \<and> 0 \<le> k then 1 else 0)"
    by (rule sum.cong) auto
  also have "\<dots> \<le> 1"
    by (cases "0 \<le> k") (simp_all add: sum.delta)
  finally show ?thesis .
qed

lemma sum_counts_le:
  "(\<Sum>v\<leftarrow>[0..<d]. int (length (filter (\<lambda>j. P j \<and> f j = int v) js)))
     \<le> int (length (filter P js))"
proof (induction js)
  case Nil
  show ?case by simp
next
  case (Cons j js)
  have "(\<Sum>v\<leftarrow>[0..<d]. int (length (filter (\<lambda>j. P j \<and> f j = int v) (j # js))))
        = (\<Sum>v\<leftarrow>[0..<d]. (if P j \<and> f j = int v then 1 else 0)
              + int (length (filter (\<lambda>j. P j \<and> f j = int v) js)))"
    by (rule arg_cong[where f = sum_list]) simp
  also have "\<dots> = (\<Sum>v\<leftarrow>[0..<d]. if P j \<and> f j = int v then 1 else 0)
              + (\<Sum>v\<leftarrow>[0..<d]. int (length (filter (\<lambda>j. P j \<and> f j = int v) js)))"
    by (simp add: sum_list_addf)
  also have "\<dots> \<le> int (length (filter P (j # js)))"
  proof (cases "P j")
    case True
    then show ?thesis
      using sum_indicator_le [of "f j" d] Cons.IH by simp
  next
    case False
    then show ?thesis using Cons.IH by simp
  qed
  finally show ?case .
qed

lemma partial_le_nonexact:
  "partial_matches d n guess target
     \<le> int (length (filter (\<lambda>i. guess ! i \<noteq> target ! i) [0..<n]))"
proof -
  have "partial_matches d n guess target
        \<le> (\<Sum>v\<leftarrow>[0..<d]. remaining_count n guess target guess (int v))"
    unfolding partial_matches_def by (rule sum_list_mono) simp
  also have "\<dots> \<le> int (length (filter (\<lambda>i. guess ! i \<noteq> target ! i) [0..<n]))"
    unfolding remaining_count_def by (rule sum_counts_le)
  finally show ?thesis .
qed

lemma partial_nonneg: "0 \<le> partial_matches d n guess target"
  unfolding partial_matches_def remaining_count_def
  by (rule sum_list_nonneg) auto

lemma exact_plus_nonexact:
  "exact_matches n guess target
     + int (length (filter (\<lambda>i. guess ! i \<noteq> target ! i) [0..<n])) = int n"
  using sum_length_filter_compl [of "\<lambda>i. guess ! i = target ! i" "[0..<n]"]
  by (simp add: exact_matches_def)

lemma exact_full_iff:
  "exact_matches n guess target = int n \<longleftrightarrow> (\<forall>i<n. guess ! i = target ! i)"
proof -
  have "exact_matches n guess target = int n \<longleftrightarrow>
        filter (\<lambda>i. guess ! i \<noteq> target ! i) [0..<n] = []"
    using exact_plus_nonexact [of n guess target] by auto
  also have "\<dots> \<longleftrightarrow> (\<forall>i<n. guess ! i = target ! i)"
    by (auto simp: filter_empty_conv)
  finally show ?thesis .
qed

text \<open>
  Claim C8. For valid codes the offer of \<open>make_guess\<close> satisfies
  \<open>goats + chickens \<le> CODE_LENGTH\<close> (and both are non-negative), so the violating case
  cannot occur.
\<close>

theorem make_guess_sum_bound:
  assumes "valid_code cfg guess" "valid_code cfg target"
  shows "\<exists>offer. make_guess cfg guess target = Inr offer \<and>
           0 \<le> goats offer \<and> 0 \<le> chickens offer \<and>
           goats offer + chickens offer \<le> int (CODE_LENGTH cfg)"
proof -
  let ?d = "DIGITS cfg" and ?n = "CODE_LENGTH cfg"
  have "exact_matches ?n guess target + partial_matches ?d ?n guess target \<le> int ?n"
    using partial_le_nonexact [of ?d ?n guess target] exact_plus_nonexact [of ?n guess target]
    by linarith
  moreover have "0 \<le> exact_matches ?n guess target"
    by (simp add: exact_matches_def)
  ultimately show ?thesis
    using make_guess_spec [OF assms] partial_nonneg [of ?d ?n guess target] by simp
qed

theorem make_guess_sum_bound_witness:
  "valid_code cfg34 [0, 0, 1, 2] \<and> valid_code cfg34 [2, 1, 0, 0] \<and>
   (\<exists>offer. make_guess cfg34 [0, 0, 1, 2] [2, 1, 0, 0] = Inr offer \<and>
           0 \<le> goats offer \<and> 0 \<le> chickens offer \<and>
           goats offer + chickens offer \<le> int (CODE_LENGTH cfg34))"
proof -
  have v: "valid_code cfg34 [0, 0, 1, 2]" "valid_code cfg34 [2, 1, 0, 0]"
    by (simp_all add: valid_code_def cfg34_def)
  show ?thesis
    using v make_guess_sum_bound [OF v] by simp
qed

text \<open>
  Claim C10. For valid codes \<open>make_guess\<close> returns \<open>goats = CODE_LENGTH\<close>, which is the
  stop test of the session loop, exactly when guess and target are equal, and then
  \<open>chickens = 0\<close>.
\<close>

theorem make_guess_solved_iff:
  assumes "valid_code cfg guess" "valid_code cfg target"
  shows "\<exists>offer. make_guess cfg guess target = Inr offer \<and>
           (solved cfg offer \<longleftrightarrow> guess = target) \<and>
           (guess = target \<longrightarrow> chickens offer = 0)"
proof -
  let ?d = "DIGITS cfg" and ?n = "CODE_LENGTH cfg"
  have len: "length guess = ?n" "length target = ?n"
    using assms by (simp_all add: valid_code_def)
  have iff: "exact_matches ?n guess target = int ?n \<longleftrightarrow> guess = target"
    using len by (auto simp: exact_full_iff list_eq_iff_nth_eq)
  have "chickens_zero": "partial_matches ?d ?n guess target = 0" if "guess = target"
  proof -
    have "exact_matches ?n guess target = int ?n" using that iff by simp
    then have "partial_matches ?d ?n guess target \<le> 0"
      using partial_le_nonexact [of ?d ?n guess target] exact_plus_nonexact [of ?n guess target]
      by linarith
    then show ?thesis using partial_nonneg [of ?d ?n guess target] by linarith
  qed
  show ?thesis
    using make_guess_spec [OF assms] iff chickens_zero by (simp add: solved_def)
qed

theorem make_guess_solved_iff_witness:
  "valid_code cfg34 [0, 0, 1, 2] \<and> valid_code cfg34 [0, 0, 1, 2] \<and>
   (\<exists>offer. make_guess cfg34 [0, 0, 1, 2] [0, 0, 1, 2] = Inr offer \<and>
           (solved cfg34 offer \<longleftrightarrow> [0, 0, 1, 2] = [0, 0, 1, (2::int)]) \<and>
           ([0, 0, 1, 2] = [0, 0, 1, (2::int)] \<longrightarrow> chickens offer = 0))"
proof -
  have v: "valid_code cfg34 [0, 0, 1, 2]"
    by (simp add: valid_code_def cfg34_def)
  show ?thesis
    using v make_guess_solved_iff [OF v v] by simp
qed

section \<open>The indexing of the universe\<close>

lemma sdiv_nonneg_eq: "0 \<le> a \<Longrightarrow> 0 < b \<Longrightarrow> (a::int) sdiv b = a div b"
  by (cases "a = 0") (simp_all add: signed_divide_int_def sgn_if)

lemma smod_nonneg_eq: "0 \<le> a \<Longrightarrow> 0 < b \<Longrightarrow> (a::int) smod b = a mod b"
  by (cases "a = 0") (simp_all add: signed_modulo_int_def sgn_if)

lemma code_to_int_snoc: "code_to_int d (xs @ [x]) = code_to_int d xs * int d + x"
  by (simp add: code_to_int_def)

lemma foldl_zeros:
  "\<forall>x\<in>set xs. x = 0 \<Longrightarrow> foldl (\<lambda>acc x. acc * (b::int) + x) 0 xs = 0"
  by (induction xs) simp_all

lemma code_to_int_zeros: "\<forall>x\<in>set xs. x = 0 \<Longrightarrow> code_to_int d xs = 0"
  by (simp add: code_to_int_def foldl_zeros)

lemma int_to_code_loop_spec:
  assumes "0 \<le> num" "num < int (DIGITS cfg) ^ k" "k \<le> length code" "\<forall>j<k. code ! j = 0"
  shows "\<exists>code'. int_to_code_loop cfg num (int k - 1) code = Inr code' \<and>
           length code' = length code \<and> drop k code' = drop k code \<and>
           code_to_int (DIGITS cfg) (take k code') = num \<and>
           (\<forall>j<k. 0 \<le> code' ! j \<and> code' ! j < int (DIGITS cfg))"
  using assms
proof (induction k arbitrary: num code)
  case 0
  then have "num = 0" by simp
  then show ?case
    by (subst int_to_code_loop.simps) (simp add: code_to_int_def)
next
  case (Suc k)
  let ?d = "int (DIGITS cfg)"
  have dpos: "0 < ?d"
  proof (rule ccontr)
    assume "\<not> 0 < ?d"
    then have "?d = 0" by simp
    with Suc.prems(1,2) show False by simp
  qed
  show ?case
  proof (cases "num = 0")
    case True
    have "\<forall>x\<in>set (take (Suc k) code). x = 0"
      using Suc.prems(3,4) by (auto simp: in_set_conv_nth)
    then have "code_to_int (DIGITS cfg) (take (Suc k) code) = 0"
      by (rule code_to_int_zeros)
    then show ?thesis
      using True Suc.prems(4) dpos
      by (subst int_to_code_loop.simps) simp
  next
    case False
    let ?m = "num mod ?d" and ?q = "num div ?d"
    let ?c = "code[k := ?m]"
    have q0: "0 \<le> ?q" using Suc.prems(1) dpos by (simp add: pos_imp_zdiv_nonneg_iff)
    have "num < ?d * ?d ^ k" using Suc.prems(2) by simp
    moreover have "?d * ?q \<le> num"
    proof -
      have "?d * ?q + ?m = num" by simp
      moreover have "0 \<le> ?m" using dpos by simp
      ultimately show ?thesis by linarith
    qed
    ultimately have "?d * ?q < ?d * ?d ^ k" by linarith
    then have qlt: "?q < ?d ^ k"
      using dpos by (simp add: mult_less_cancel_left_pos)
    have klen: "k < length code" using Suc.prems(3) by simp
    have z: "\<forall>j<k. ?c ! j = 0" using Suc.prems(4) by simp
    from Suc.IH [OF q0 qlt _ z] klen
    obtain code' where r: "int_to_code_loop cfg ?q (int k - 1) ?c = Inr code'"
      and len: "length code' = length code"
      and dr: "drop k code' = drop k ?c"
      and val: "code_to_int (DIGITS cfg) (take k code') = ?q"
      and rng: "\<forall>j<k. 0 \<le> code' ! j \<and> code' ! j < ?d"
      by auto
    have nthk: "code' ! k = ?m"
    proof -
      have "code' ! k = hd (drop k code')" using klen len by (simp add: hd_drop_conv_nth)
      also have "\<dots> = ?c ! k" using dr klen by (simp add: hd_drop_conv_nth)
      finally show ?thesis using klen by simp
    qed
    have dr': "drop (Suc k) code' = drop (Suc k) code"
    proof -
      have "drop (Suc k) code' = tl (drop k code')" by (simp add: drop_Suc tl_drop)
      also have "\<dots> = tl (drop k ?c)" using dr by simp
      also have "\<dots> = drop (Suc k) ?c" by (simp add: drop_Suc tl_drop)
      finally show ?thesis by simp
    qed
    have tk: "take (Suc k) code' = take k code' @ [?m]"
      using klen len nthk by (simp add: take_Suc_conv_app_nth)
    have v: "code_to_int (DIGITS cfg) (take (Suc k) code') = num"
      by (simp add: tk code_to_int_snoc val)
    have rng': "\<forall>j<Suc k. 0 \<le> code' ! j \<and> code' ! j < ?d"
      using rng nthk dpos by (auto simp: less_Suc_eq)
    have step: "int_to_code_loop cfg num (int (Suc k) - 1) code
                = int_to_code_loop cfg ?q (int k - 1) ?c"
      using False dpos klen Suc.prems(1)
      by (subst int_to_code_loop.simps)
         (simp add: in_bounds_def sdiv_nonneg_eq smod_nonneg_eq)
    show ?thesis
      using step r len dr' v rng' by simp
  qed
qed

text \<open>
  Claim C9. For every \<open>n\<close> in \<open>[0, DIGITS ^ CODE_LENGTH)\<close>, \<open>int_to_code\<close> returns a valid
  code (it does not leave the array), and reading that code back as a number in base
  \<open>DIGITS\<close>, most significant digit first, gives \<open>n\<close> again.
\<close>

theorem int_to_code_round_trip:
  assumes "0 \<le> n" "n < int (DIGITS cfg) ^ CODE_LENGTH cfg"
  shows "\<exists>c. int_to_code cfg n = Inr c \<and> valid_code cfg c \<and> code_to_int (DIGITS cfg) c = n"
proof -
  from int_to_code_loop_spec [OF assms, of "replicate (CODE_LENGTH cfg) 0"]
  obtain c where "int_to_code cfg n = Inr c" "length c = CODE_LENGTH cfg"
    "code_to_int (DIGITS cfg) (take (CODE_LENGTH cfg) c) = n"
    "\<forall>j<CODE_LENGTH cfg. 0 \<le> c ! j \<and> c ! j < int (DIGITS cfg)"
    by (auto simp: int_to_code_def)
  then show ?thesis
    by (auto simp: valid_code_def list_all_length)
qed

theorem int_to_code_round_trip_witness:
  "(0::int) \<le> 59 \<and> (59::int) < int (DIGITS cfg34) ^ CODE_LENGTH cfg34 \<and>
   (\<exists>c. int_to_code cfg34 59 = Inr c \<and> valid_code cfg34 c \<and> code_to_int (DIGITS cfg34) c = 59)"
proof -
  have h: "(0::int) \<le> 59" "(59::int) < int (DIGITS cfg34) ^ CODE_LENGTH cfg34"
    by (simp_all add: cfg34_def)
  show ?thesis
    using h int_to_code_round_trip [OF h] by simp
qed

section \<open>Linked lists and pruning\<close>

lemma chain_unique: "chain h p xs \<Longrightarrow> chain h p ys \<Longrightarrow> xs = ys"
proof (induction xs arbitrary: p ys)
  case Nil
  then show ?case by (cases ys) auto
next
  case (Cons a as)
  then show ?case by (cases ys) auto
qed

lemma chain_suffix: "chain h p (xs @ a # ys) \<Longrightarrow> chain h (Some a) (a # ys)"
  by (induction xs arbitrary: p) auto

lemma chain_distinct: "chain h p xs \<Longrightarrow> distinct xs"
proof (induction xs arbitrary: p)
  case Nil
  show ?case by simp
next
  case (Cons a as)
  have "a \<notin> set as"
  proof
    assume "a \<in> set as"
    then obtain bs cs where as: "as = bs @ a # cs" by (auto dest: split_list)
    from Cons.prems have full: "chain h (Some a) (a # as)" by simp
    have "chain h (Some a) (a # cs)"
      using full chain_suffix [of h "Some a" "a # bs" a cs] by (simp add: as)
    with full have "a # as = a # cs" by (rule chain_unique)
    then show False using as by simp
  qed
  moreover have "distinct as" using Cons by auto
  ultimately show ?case by simp
qed

lemma chain_frame:
  "a \<notin> set xs \<Longrightarrow> chain (h[a := n]) p xs = chain h p xs"
  by (induction xs arbitrary: p) (auto simp: nth_list_update)

lemma chain_bounds: "chain h p xs \<Longrightarrow> a \<in> set xs \<Longrightarrow> a < length h"
  by (induction xs arbitrary: p) auto

lemma chain_last_next:
  "chain h p xs \<Longrightarrow> xs \<noteq> [] \<Longrightarrow> node_next (h ! last xs) = None"
proof (induction xs arbitrary: p)
  case Nil
  then show ?case by simp
next
  case (Cons a as)
  then show ?case by (cases as) auto
qed

lemma chain_splice:
  assumes "chain h p (ks @ a # q # qs)" "distinct (ks @ a # q # qs)"
  shows "chain (h[a := (h ! a)\<lparr>node_next := node_next (h ! q)\<rparr>]) p (ks @ a # qs)"
  using assms
proof (induction ks arbitrary: p)
  case Nil
  then show ?case by (simp add: chain_frame)
next
  case (Cons k ks)
  then show ?case by (auto simp: nth_list_update)
qed

lemma chain_tail: "chain h p (ks @ qs) \<Longrightarrow> ks \<noteq> [] \<Longrightarrow> qs \<noteq> [] \<Longrightarrow>
    node_next (h ! last ks) = Some (hd qs)"
proof (induction ks arbitrary: p)
  case Nil
  then show ?case by simp
next
  case (Cons k ks)
  show ?case
  proof (cases ks)
    case Nil
    with Cons.prems show ?thesis by (cases qs) auto
  next
    case (Cons k' ks')
    with Cons.IH [of "node_next (h ! k)"] Cons.prems show ?thesis by auto
  qed
qed

lemma code_is_guess_spec:
  assumes "length guess = CODE_LENGTH cfg" "length c = CODE_LENGTH cfg"
  shows "code_is_guess cfg guess c i =
           Inr (\<forall>j. i \<le> j \<and> j < CODE_LENGTH cfg \<longrightarrow> guess ! j = c ! j)"
  using assms
proof (induction cfg guess c i rule: code_is_guess.induct)
  case (1 cfg guess c i)
  show ?case
  proof (cases "i < CODE_LENGTH cfg")
    case False
    then show ?thesis by (subst code_is_guess.simps) simp
  next
    case True
    show ?thesis
    proof (cases "guess ! i = c ! i")
      case neq: False
      then show ?thesis
        using True 1(2,3) by (subst code_is_guess.simps) auto
    next
      case eq: True
      have "(\<forall>j. i \<le> j \<and> j < CODE_LENGTH cfg \<longrightarrow> guess ! j = c ! j) \<longleftrightarrow>
            (\<forall>j. i + 1 \<le> j \<and> j < CODE_LENGTH cfg \<longrightarrow> guess ! j = c ! j)"
      proof (intro iffI allI impI)
        fix j
        assume "\<forall>j. i \<le> j \<and> j < CODE_LENGTH cfg \<longrightarrow> guess ! j = c ! j"
          and "i + 1 \<le> j \<and> j < CODE_LENGTH cfg"
        then show "guess ! j = c ! j" by simp
      next
        fix j
        assume a: "\<forall>j. i + 1 \<le> j \<and> j < CODE_LENGTH cfg \<longrightarrow> guess ! j = c ! j"
          and b: "i \<le> j \<and> j < CODE_LENGTH cfg"
        show "guess ! j = c ! j"
        proof (cases "j = i")
          case True
          then show ?thesis using eq by simp
        next
          case False
          then have "i + 1 \<le> j" using b by simp
          then show ?thesis using a b by simp
        qed
      qed
      then show ?thesis
        using True eq 1(2,3) 1(1)
        by (subst code_is_guess.simps) simp
    qed
  qed
qed

lemma code_is_guess_eq:
  "valid_code cfg guess \<Longrightarrow> valid_code cfg c \<Longrightarrow> code_is_guess cfg guess c 0 = Inr (guess = c)"
  by (simp add: code_is_guess_spec valid_code_def list_eq_iff_nth_eq)

lemma last_opt_simps [simp]:
  "last_opt [] = None" "last_opt (xs @ [a]) = Some a"
  by (simp_all add: last_opt_def)

lemma set_next_fields [simp]:
  "possible_codes (set_next s a p) = possible_codes s"
  "length (all_codes (set_next s a p)) = length (all_codes s)"
  "node_code (all_codes (set_next s a p) ! b) = node_code (all_codes s ! b)"
  "next_guess (set_next s a p) = next_guess s"
  "next_guess_score (set_next s a p) = next_guess_score s"
  by (simp_all add: set_next_def)
     (cases "a < length (all_codes s)"; cases "a = b"; simp add: list_update_beyond)

lemma prune_loop_spec:
  assumes codes: "\<forall>a. node_code (all_codes s ! a) = c a"
    and vg: "valid_code cfg guess"
    and vq: "\<forall>a\<in>set qs. valid_code cfg (c a)"
    and ch: "chain (all_codes s) (possible_codes s) (ks @ qs)"
    and cu: "chain (all_codes s) cur qs"
    and pv: "prev = last_opt ks"
  shows "\<exists>s'. prune_loop cfg guess offer s prev cur cnt =
            Some (Inr (s', last_opt (ks @ filter (\<lambda>a. consistent cfg guess offer (c a)) qs),
                       cnt + int (length (filter (\<lambda>a. consistent cfg guess offer (c a)) qs))))
          \<and> chain (all_codes s') (possible_codes s')
               (ks @ filter (\<lambda>a. consistent cfg guess offer (c a)) qs)
          \<and> (\<forall>a. node_code (all_codes s' ! a) = c a)
          \<and> length (all_codes s') = length (all_codes s)
          \<and> next_guess s' = next_guess s \<and> next_guess_score s' = next_guess_score s"
  using assms
proof (induction qs arbitrary: s prev cur cnt ks)
  case Nil
  then show ?case
    by (subst prune_loop.simps) simp
next
  case (Cons q qs)
  let ?h = "all_codes s"
  let ?keep = "\<lambda>a. consistent cfg guess offer (c a)"
  from Cons.prems have cur: "cur = Some q" and qlen: "q < length ?h"
    and cnext: "chain ?h (node_next (?h ! q)) qs" by auto
  have vcq: "valid_code cfg (c q)" using Cons.prems by simp
  have cq: "node_code (?h ! q) = c q" using Cons.prems by simp
  obtain po where mg: "make_guess cfg guess (c q) = Inr po"
    using make_guess_spec [OF Cons.prems(2) vcq] by simp
  have cig: "code_is_guess cfg guess (c q) 0 = Inr (guess = c q)"
    using Cons.prems(2) vcq by (rule code_is_guess_eq)
  have keep_iff: "?keep q \<longleftrightarrow>
      \<not> (goats po \<noteq> goats offer \<or> chickens po \<noteq> chickens offer \<or> guess = c q)"
    by (auto simp: consistent_def mg)
  have dist: "distinct (ks @ q # qs)"
    using Cons.prems(4) by (rule chain_distinct)
  show ?case
  proof (cases "?keep q")
    case True
    have step: "prune_loop cfg guess offer s prev cur cnt
                = prune_loop cfg guess offer s (Some q) (node_next (?h ! q)) (cnt + 1)"
      using True keep_iff qlen
      by (subst prune_loop.simps) (simp add: cur cq mg cig)
    have ch': "chain ?h (possible_codes s) ((ks @ [q]) @ qs)"
      using Cons.prems(4) by simp
    have vq': "\<forall>a\<in>set qs. valid_code cfg (c a)" using Cons.prems(3) by simp
    from Cons.IH [OF Cons.prems(1,2) vq' ch' cnext, of "Some q" "cnt + 1"]
    show ?thesis
      using True by (simp add: step add.assoc)
  next
    case False
    have vq': "\<forall>a\<in>set qs. valid_code cfg (c a)" using Cons.prems(3) by simp
    show ?thesis
    proof (cases ks)
      case Nil
      have pc: "possible_codes s = Some q" using Cons.prems(4) Nil by simp
      let ?s' = "s\<lparr>possible_codes := node_next (?h ! q)\<rparr>"
      have step: "prune_loop cfg guess offer s prev cur cnt
                  = prune_loop cfg guess offer ?s' prev (node_next (?h ! q)) cnt"
        using False keep_iff qlen
        by (subst prune_loop.simps) (simp add: cur cq mg cig pc)
      have c1: "\<forall>a. node_code (all_codes ?s' ! a) = c a" using Cons.prems(1) by simp
      have c2: "chain (all_codes ?s') (possible_codes ?s') ([] @ qs)" using cnext by simp
      have c3: "chain (all_codes ?s') (node_next (?h ! q)) qs" using cnext by simp
      have c4: "prev = last_opt []" using Cons.prems(6) Nil by simp
      from Cons.IH [OF c1 Cons.prems(2) vq' c2 c3 c4, of cnt]
      show ?thesis
        using False Nil by (simp add: step)
    next
      case (Cons k ks')
      have ksne: "ks \<noteq> []" using Cons by simp
      have pc: "possible_codes s = Some k" using Cons.prems(4) Cons by simp
      have kq: "k \<noteq> q" using dist Cons by auto
      obtain ks0 p where ks: "ks = ks0 @ [p]"
        using ksne by (metis append_butlast_last_id)
      have pv: "prev = Some p" using Cons.prems(6) ks by simp
      have plen: "p < length ?h"
        using Cons.prems(4) ks chain_bounds [of ?h "possible_codes s" "ks @ q # qs" p] by simp
      have pq: "p \<noteq> q" using dist ks by auto
      have pqs: "p \<notin> set qs" using dist ks by auto
      let ?s' = "set_next s p (node_next (?h ! q))"
      have nq: "node_next (all_codes ?s' ! q) = node_next (?h ! q)"
        using pq by (simp add: set_next_def)
      have step: "prune_loop cfg guess offer s prev cur cnt
                  = prune_loop cfg guess offer ?s' prev (node_next (?h ! q)) cnt"
        using False keep_iff qlen plen kq
        by (subst prune_loop.simps) (simp add: cur cq mg cig pc pv nq)
      have c1: "\<forall>a. node_code (all_codes ?s' ! a) = c a" using Cons.prems(1) by simp
      have "chain (?h[p := (?h ! p)\<lparr>node_next := node_next (?h ! q)\<rparr>]) (possible_codes s)
              (ks0 @ p # qs)"
        using Cons.prems(4) dist by (intro chain_splice) (simp_all add: ks)
      then have c2: "chain (all_codes ?s') (possible_codes ?s') (ks @ qs)"
        by (simp add: set_next_def ks)
      have c3: "chain (all_codes ?s') (node_next (?h ! q)) qs"
        using cnext pqs by (simp add: set_next_def chain_frame)
      from Cons.IH [OF c1 Cons.prems(2) vq' c2 c3 Cons.prems(6), of cnt]
      show ?thesis
        using False by (simp add: step)
    qed
  qed
qed

lemma set_next_same:
  assumes "node_next (all_codes s ! p) = q"
  shows "set_next s p q = s"
proof -
  have "(all_codes s ! p)\<lparr>node_next := q\<rparr> = all_codes s ! p"
    using assms by (cases "all_codes s ! p") simp
  then show ?thesis by (simp add: set_next_def)
qed

lemma remove_impossible_codes_spec:
  fixes offer :: Offer
  assumes rem: "remaining s xs" and vn: "valid_nodes cfg s xs" and vg: "valid_code cfg guess"
  defines "ys \<equiv> filter (\<lambda>a. consistent cfg guess offer (node_code (all_codes s ! a))) xs"
  shows "if ys = [] then remove_impossible_codes cfg guess offer s = Some (Inl NullDeref)
         else \<exists>s'. remove_impossible_codes cfg guess offer s = Some (Inr (s', int (length ys)))
                \<and> remaining s' ys
                \<and> (\<forall>a. node_code (all_codes s' ! a) = node_code (all_codes s ! a))
                \<and> length (all_codes s') = length (all_codes s)
                \<and> next_guess s' = next_guess s \<and> next_guess_score s' = next_guess_score s"
proof -
  let ?c = "\<lambda>a. node_code (all_codes s ! a)"
  have vq: "\<forall>a\<in>set xs. valid_code cfg (?c a)"
    using vn by (simp add: valid_nodes_def list_all_iff)
  have ch: "chain (all_codes s) (possible_codes s) ([] @ xs)"
    using rem by (simp add: remaining_def)
  have cu: "chain (all_codes s) (possible_codes s) xs"
    using rem by (simp add: remaining_def)
  from prune_loop_spec [where c = ?c and ks = "[]" and cnt = 0 and offer = offer, OF _ vg vq ch cu]
  obtain s' where
    r: "prune_loop cfg guess offer s None (possible_codes s) 0
          = Some (Inr (s', last_opt ys, int (length ys)))"
    and ch': "chain (all_codes s') (possible_codes s') ys"
    and cd: "\<forall>a. node_code (all_codes s' ! a) = ?c a"
    and ln: "length (all_codes s') = length (all_codes s)"
    and ng: "next_guess s' = next_guess s" "next_guess_score s' = next_guess_score s"
    by (auto simp: ys_def)
  show ?thesis
  proof (cases "ys = []")
    case True
    then show ?thesis
      using r by (simp add: remove_impossible_codes_def)
  next
    case False
    have lo: "last_opt ys = Some (last ys)" using False by (simp add: last_opt_def)
    have lb: "last ys < length (all_codes s')"
      using ch' False chain_bounds [of "all_codes s'" "possible_codes s'" ys "last ys"] by simp
    have "node_next (all_codes s' ! last ys) = None"
      using ch' False by (rule chain_last_next)
    then have same: "set_next s' (last ys) None = s'" by (rule set_next_same)
    have "remove_impossible_codes cfg guess offer s = Some (Inr (s', int (length ys)))"
      using r lo lb same by (simp add: remove_impossible_codes_def)
    then show ?thesis
      using False ch' cd ln ng by (auto simp: remaining_def)
  qed
qed

text \<open>
  The pruning when a candidate survives. When the remaining list is a list of valid codes,
  the guess is valid and at least one remaining candidate is consistent with the observed
  offer, \<open>remove_impossible_codes\<close> returns; afterwards a code is a member of the
  remaining list exactly when it was a member before, \<open>make_guess\<close> of the guess against
  it gives the observed offer and it is not the guess; the returned value is the new
  number of remaining codes, which is not larger than before, and the guess is not a
  member.
\<close>

theorem remove_impossible_codes_prunes:
  assumes "remaining s xs" "valid_nodes cfg s xs" "valid_code cfg guess"
    and "\<exists>c\<in>members s xs. consistent cfg guess offer c"
  shows "\<exists>s' ys. remove_impossible_codes cfg guess offer s = Some (Inr (s', int (length ys)))
           \<and> remaining s' ys
           \<and> (\<forall>c. c \<in> members s' ys \<longleftrightarrow> c \<in> members s xs \<and> consistent cfg guess offer c)
           \<and> length ys \<le> length xs
           \<and> guess \<notin> members s' ys"
proof -
  let ?ys = "filter (\<lambda>a. consistent cfg guess offer (node_code (all_codes s ! a))) xs"
  have ne: "?ys \<noteq> []"
    using assms(4) by (auto simp: members_def filter_empty_conv)
  from remove_impossible_codes_spec [OF assms(1,2,3), of offer] ne
  obtain s' where r: "remove_impossible_codes cfg guess offer s = Some (Inr (s', int (length ?ys)))"
    and rm: "remaining s' ?ys"
    and cd: "\<forall>a. node_code (all_codes s' ! a) = node_code (all_codes s ! a)"
    by auto
  have mem: "\<forall>c. c \<in> members s' ?ys \<longleftrightarrow> c \<in> members s xs \<and> consistent cfg guess offer c"
    using cd by (auto simp: members_def)
  have "guess \<notin> members s' ?ys"
    using mem by (auto simp: consistent_def)
  with r rm mem show ?thesis
    by (intro exI [of _ s'] exI [of _ ?ys]) simp
qed

theorem remove_impossible_codes_prunes_witness:
  "remaining universe22 [0, 1, 2, 3] \<and> valid_nodes cfg22 universe22 [0, 1, 2, 3] \<and>
   valid_code cfg22 [0, 1] \<and>
   (\<exists>c\<in>members universe22 [0, 1, 2, 3]. consistent cfg22 [0, 1] \<lparr>goats = 0, chickens = 2\<rparr> c) \<and>
   (\<exists>s' ys. remove_impossible_codes cfg22 [0, 1] \<lparr>goats = 0, chickens = 2\<rparr> universe22
               = Some (Inr (s', int (length ys)))
           \<and> remaining s' ys
           \<and> (\<forall>c. c \<in> members s' ys \<longleftrightarrow>
                 c \<in> members universe22 [0, 1, 2, 3] \<and>
                 consistent cfg22 [0, 1] \<lparr>goats = 0, chickens = 2\<rparr> c)
           \<and> length ys \<le> length [0, 1, 2, 3::nat]
           \<and> [0, 1] \<notin> members s' ys)"
proof -
  have h1: "remaining universe22 [0, 1, 2, 3]"
    by (simp add: remaining_def universe22_def)
  have h2: "valid_nodes cfg22 universe22 [0, 1, 2, 3]"
    by (simp add: valid_nodes_def valid_code_def universe22_def cfg22_def)
  have h3: "valid_code cfg22 [0, 1]"
    by (simp add: valid_code_def cfg22_def)
  have "consistent cfg22 [0, 1] \<lparr>goats = 0, chickens = 2\<rparr> [1, 0]"
    by code_simp
  moreover have "[1, 0] \<in> members universe22 [0, 1, 2, 3]"
    by (simp add: members_def universe22_def)
  ultimately have h4:
    "\<exists>c\<in>members universe22 [0, 1, 2, 3]. consistent cfg22 [0, 1] \<lparr>goats = 0, chickens = 2\<rparr> c"
    by blast
  show ?thesis
    using h1 h2 h3 h4 remove_impossible_codes_prunes [OF h1 h2 h3 h4] by simp
qed

text \<open>
  Removing the first and the last element, and removing elements in the middle.
\<close>

lemma remove_impossible_codes_example:
  "remove_impossible_codes cfg22 [0, 1] \<lparr>goats = 0, chickens = 2\<rparr> universe22
     = Some (Inr (pruned22, 1))"
  by code_simp

lemma remove_impossible_codes_middle:
  "remove_impossible_codes cfg22 [0, 1] \<lparr>goats = 1, chickens = 0\<rparr> universe22
     = Some (Inr (universe22\<lparr>all_codes := (all_codes universe22)
                     [0 := \<lparr>node_code = [0, 0], node_next = Some 3\<rparr>]\<rparr>, 2))"
  by code_simp

text \<open>
  Claim C4 at a call that removes every candidate. The codes \<open>01\<close> and \<open>10\<close> remain, the
  guess is \<open>01\<close> and the offer is one goat and no chicken, which \<open>make_guess\<close> returns for
  \<open>01\<close> against \<open>11\<close>. The claim gives the empty subset and the count \<open>0\<close>; the function
  unlinks both nodes, never assigns \<open>prev\<close>, and dereferences it in \<open>prev->next = NULL\<close>
  instead of returning the count.
\<close>

theorem remove_impossible_codes_none_left:
  "make_guess cfg22 [0, 1] [1, 1] = Inr \<lparr>goats = 1, chickens = 0\<rparr> \<and>
   remaining two_left22 [1, 2] \<and>
   remove_impossible_codes cfg22 [0, 1] \<lparr>goats = 1, chickens = 0\<rparr> two_left22
     = Some (Inl NullDeref)"
  by code_simp

text \<open>
  Claim C6 at the input where every element is removed: the only remaining code \<open>10\<close>
  is the guess itself. The loop unlinks it and leaves \<open>prev = NULL\<close>, and the statement
  \<open>prev->next = NULL\<close> after the loop dereferences it; the function returns no count.
\<close>

theorem remove_impossible_codes_sole_element:
  "remove_impossible_codes cfg22 [1, 0] \<lparr>goats = 1, chickens = 0\<rparr> pruned22
     = Some (Inl NullDeref)"
  by code_simp


section \<open>The partitioner\<close>

lemma chain_Cons_cases:
  "chain h p ys \<Longrightarrow> ys \<noteq> [] \<Longrightarrow>
     p = Some (hd ys) \<and> hd ys < length h \<and> chain h (node_next (h ! hd ys)) (tl ys)"
  by (cases ys) auto

lemma advance_spec:
  assumes "chain (all_codes s) p ys" "n = nat (q - i)" "n \<le> length ys"
  shows "\<exists>p'. advance s q i p = Inr p' \<and> chain (all_codes s) p' (drop n ys)"
  using assms
proof (induction n arbitrary: i p ys)
  case 0
  then have "\<not> i < q" by simp
  then show ?case
    using 0 by (subst advance.simps) simp
next
  case (Suc n)
  then have lt: "i < q" by linarith
  have ne: "ys \<noteq> []" using Suc.prems by auto
  from chain_Cons_cases [OF Suc.prems(1) ne]
  have p: "p = Some (hd ys)" and b: "hd ys < length (all_codes s)"
    and c: "chain (all_codes s) (node_next (all_codes s ! hd ys)) (tl ys)"
    by simp_all
  have n: "n = nat (q - (i + 1))" using Suc.prems(2) by linarith
  have l: "n \<le> length (tl ys)" using Suc.prems(3) by simp
  from Suc.IH [OF c n l]
  obtain p' where r: "advance s q (i + 1) (node_next (all_codes s ! hd ys)) = Inr p'"
    and c': "chain (all_codes s) p' (drop n (tl ys))" by auto
  have "advance s q i p = Inr p'"
    using lt p b r by (subst advance.simps) simp
  moreover have "drop (Suc n) ys = drop n (tl ys)"
    by (simp add: drop_Suc)
  ultimately show ?case using c' by simp
qed

lemma visit_spec: "chain h p ys \<Longrightarrow> visit h n p = take n ys"
proof (induction n arbitrary: p ys)
  case 0
  show ?case by simp
next
  case (Suc n)
  then show ?case by (cases ys) auto
qed

lemma concat_slices:
  "concat (map (\<lambda>i. take k (drop (i * k) xs)) [0..<t]) = take (t * k) xs"
proof (induction t)
  case 0
  show ?case by simp
next
  case (Suc t)
  have "take (Suc t * k) xs = take (t * k) xs @ take k (drop (t * k) xs)"
    using take_add [of "t * k" k xs] by (simp add: add.commute)
  then show ?case using Suc by simp
qed

lemma make_partitions_spec:
  assumes "0 \<le> m" "k = nat (m div int (THREADS cfg))" "q = int k"
    and "THREADS cfg * k \<le> length xs"
    and "n = THREADS cfg - t"
    and "chain (all_codes s) cur (drop (t * k) xs)"
  shows "\<exists>ps. make_partitions cfg s m q t cur = Inr ps \<and>
           map p_size ps = map (\<lambda>i. q) [t..<THREADS cfg] \<and>
           map (partition_nodes s) ps = map (\<lambda>i. take k (drop (i * k) xs)) [t..<THREADS cfg]"
  using assms
proof (induction n arbitrary: t cur)
  case 0
  then have "\<not> t < THREADS cfg" by simp
  then show ?case by (subst make_partitions.simps) simp
next
  case (Suc n)
  let ?T = "THREADS cfg"
  have tT: "t < ?T" using Suc.prems by simp
  have Tpos: "0 < int ?T" using tT by simp
  have qle: "int ?T * q \<le> m"
  proof -
    have "0 \<le> m div int ?T" using Suc.prems(1) Tpos by (simp add: pos_imp_zdiv_nonneg_iff)
    then have e: "q = m div int ?T" using Suc.prems(2,3) by simp
    have "int ?T * (m div int ?T) + m mod int ?T = m" by simp
    moreover have "0 \<le> m mod int ?T" using Tpos by simp
    ultimately have "int ?T * (m div int ?T) \<le> m" by linarith
    then show ?thesis by (simp only: e)
  qed
  have size: "min_macro m ((int t + 1) * q) - int t * q = q"
  proof -
    have "(int t + 1) \<le> int ?T" using tT by simp
    moreover have "0 \<le> q" using Suc.prems(3) by simp
    ultimately have "(int t + 1) * q \<le> int ?T * q" by (rule mult_right_mono)
    then have "\<not> m < (int t + 1) * q" using qle by linarith
    then show ?thesis by (simp add: min_macro_def algebra_simps)
  qed
  have nodes: "partition_nodes s \<lparr>p_index = cur, p_size = q\<rparr> = take k (drop (t * k) xs)"
    using Suc.prems(6) by (simp add: partition_nodes_def visit_spec Suc.prems(3))
  show ?case
  proof (cases "int t < int ?T - 1")
    case True
    have "t + 1 \<le> ?T" using tT by simp
    then have "(t + 1) * k \<le> ?T * k" by (rule mult_le_mono1)
    then have kl: "k \<le> length (drop (t * k) xs)" using Suc.prems(4) by simp
    from advance_spec [OF Suc.prems(6) _ kl, of q 0]
    obtain p' where a: "advance s q 0 cur = Inr p'"
      and c: "chain (all_codes s) p' (drop k (drop (t * k) xs))"
      using Suc.prems(3) by auto
    have c': "chain (all_codes s) p' (drop ((t + 1) * k) xs)"
      using c by (simp add: add.commute)
    have n: "n = ?T - (t + 1)" using Suc.prems(5) by simp
    from Suc.IH [OF Suc.prems(1,2,3,4) n c']
    obtain ps where r: "make_partitions cfg s m q (t + 1) p' = Inr ps"
      and sz: "map p_size ps = map (\<lambda>i. q) [t + 1..<?T]"
      and nd: "map (partition_nodes s) ps = map (\<lambda>i. take k (drop (i * k) xs)) [t + 1..<?T]"
      by auto
    have "make_partitions cfg s m q t cur = Inr (\<lparr>p_index = cur, p_size = q\<rparr> # ps)"
      using tT True a r size by (subst make_partitions.simps) simp
    then show ?thesis
      using sz nd nodes tT by (simp add: upt_conv_Cons)
  next
    case False
    then have last: "t + 1 = ?T" using tT by linarith
    have r: "make_partitions cfg s m q (t + 1) cur = Inr []"
      using last by (subst make_partitions.simps) simp
    have "make_partitions cfg s m q t cur = Inr [\<lparr>p_index = cur, p_size = q\<rparr>]"
      using tT False r size by (subst make_partitions.simps) simp
    moreover have "[t..<?T] = [t]"
    proof -
      have "[t..<t + 1] = [t]" by simp
      then show ?thesis by (simp only: last)
    qed
    ultimately show ?thesis
      using nodes by simp
  qed
qed

text \<open>
  The partitioner on every input. For a remaining list of \<open>M\<close> candidates and \<open>T \<ge> 1\<close>
  threads the partitioner produces \<open>T\<close> partitions; partition \<open>i\<close> has the size
  \<open>min(M, (i+1) * (M div T)) - i * (M div T)\<close>, which is \<open>M div T\<close> for every thread, the
  last one included, and the worker of partition \<open>i\<close> visits the \<open>M div T\<close> candidates
  from position \<open>i * (M div T)\<close> on. The partitions are contiguous and do not overlap,
  they cover the first \<open>T * (M div T)\<close> candidates of the list, and their sizes sum to
  \<open>M - M mod T\<close>: the last \<open>M mod T\<close> candidates are in no partition.
\<close>

theorem partition_codes_cover:
  assumes "remaining s xs" "0 < THREADS cfg"
  shows "\<exists>ps. partition_codes cfg s (int (length xs)) = Inr ps \<and> length ps = THREADS cfg \<and>
     (\<forall>i<THREADS cfg.
        p_size (ps ! i) =
          min (int (length xs)) ((int i + 1) * int (length xs div THREADS cfg))
            - int i * int (length xs div THREADS cfg) \<and>
        p_size (ps ! i) = int (length xs div THREADS cfg) \<and>
        partition_nodes s (ps ! i) =
          take (length xs div THREADS cfg) (drop (i * (length xs div THREADS cfg)) xs)) \<and>
     concat (map (partition_nodes s) ps) = take (THREADS cfg * (length xs div THREADS cfg)) xs \<and>
     sum_list (map p_size ps) = int (length xs) - int (length xs mod THREADS cfg)"
proof -
  let ?T = "THREADS cfg" and ?M = "length xs"
  let ?k = "?M div ?T"
  have Tk: "?T * ?k \<le> ?M" by simp
  have sd: "int ?M sdiv int ?T = int ?k"
    using assms(2) by (simp add: sdiv_nonneg_eq zdiv_int)
  have k: "?k = nat (int ?M div int ?T)"
    by (simp add: zdiv_int [symmetric])
  have ch: "chain (all_codes s) (possible_codes s) (drop (0 * ?k) xs)"
    using assms(1) by (simp add: remaining_def)
  from make_partitions_spec [where m = "int ?M" and t = 0 and xs = xs and q = "int ?k",
      OF _ k refl Tk _ ch]
  obtain ps where r: "make_partitions cfg s (int ?M) (int ?k) 0 (possible_codes s) = Inr ps"
    and sz: "map p_size ps = map (\<lambda>i. int ?k) [0..<?T]"
    and nd: "map (partition_nodes s) ps = map (\<lambda>i. take ?k (drop (i * ?k) xs)) [0..<?T]"
    by auto
  have res: "partition_codes cfg s (int ?M) = Inr ps"
    using assms(2) r by (simp add: partition_codes_def sd)
  have len: "length ps = ?T"
    using arg_cong [OF sz, of length] by simp
  have each: "p_size (ps ! i) = int ?k \<and>
              partition_nodes s (ps ! i) = take ?k (drop (i * ?k) xs)" if "i < ?T" for i
  proof -
    have "p_size (ps ! i) = map p_size ps ! i" using that len by simp
    also have "\<dots> = int ?k" using that by (simp add: sz)
    finally have a: "p_size (ps ! i) = int ?k" .
    have "partition_nodes s (ps ! i) = map (partition_nodes s) ps ! i" using that len by simp
    also have "\<dots> = take ?k (drop (i * ?k) xs)" using that by (simp add: nd)
    finally show ?thesis using a by simp
  qed
  have formula: "min (int ?M) ((int i + 1) * int ?k) - int i * int ?k = int ?k"
    if "i < ?T" for i
  proof -
    have "i + 1 \<le> ?T" using that by simp
    then have "(i + 1) * ?k \<le> ?T * ?k" by (rule mult_le_mono1)
    then have "(i + 1) * ?k \<le> ?M" using Tk by linarith
    then have "int ((i + 1) * ?k) \<le> int ?M" by (simp only: of_nat_le_iff)
    then have "(int i + 1) * int ?k \<le> int ?M" by (simp add: algebra_simps)
    then show ?thesis by (simp add: min_def algebra_simps)
  qed
  have cover: "concat (map (partition_nodes s) ps) = take (?T * ?k) xs"
    by (simp only: nd concat_slices)
  have "sum_list (map p_size ps) = int ?T * int ?k"
    by (simp add: sz sum_list_triv)
  also have "\<dots> = int (?T * ?k)" by simp
  also have "?T * ?k = ?M - ?M mod ?T"
    by (simp add: minus_mod_eq_mult_div)
  also have "int (?M - ?M mod ?T) = int ?M - int (?M mod ?T)"
    by (simp add: of_nat_diff)
  finally have total: "sum_list (map p_size ps) = int ?M - int (?M mod ?T)" .
  show ?thesis
    using res len each formula cover total by (intro exI [of _ ps]) simp
qed

theorem partition_codes_cover_witness:
  "remaining universe22 [0, 1, 2, 3] \<and> 0 < THREADS cfg223 \<and>
   (\<exists>ps. partition_codes cfg223 universe22 (int (length [0, 1, 2, 3::nat])) = Inr ps \<and>
     length ps = THREADS cfg223 \<and>
     (\<forall>i<THREADS cfg223.
        p_size (ps ! i) =
          min (int (length [0, 1, 2, 3::nat]))
              ((int i + 1) * int (length [0, 1, 2, 3::nat] div THREADS cfg223))
            - int i * int (length [0, 1, 2, 3::nat] div THREADS cfg223) \<and>
        p_size (ps ! i) = int (length [0, 1, 2, 3::nat] div THREADS cfg223) \<and>
        partition_nodes universe22 (ps ! i) =
          take (length [0, 1, 2, 3::nat] div THREADS cfg223)
            (drop (i * (length [0, 1, 2, 3::nat] div THREADS cfg223)) [0, 1, 2, 3])) \<and>
     concat (map (partition_nodes universe22) ps) =
       take (THREADS cfg223 * (length [0, 1, 2, 3::nat] div THREADS cfg223)) [0, 1, 2, 3] \<and>
     sum_list (map p_size ps) =
       int (length [0, 1, 2, 3::nat]) - int (length [0, 1, 2, 3::nat] mod THREADS cfg223))"
proof -
  have h1: "remaining universe22 [0, 1, 2, 3]"
    by (simp add: remaining_def universe22_def)
  have h2: "0 < THREADS cfg223"
    by (simp add: cfg223_def)
  show ?thesis
    using h1 h2 partition_codes_cover [OF h1 h2] by blast
qed

text \<open>
  Four remaining candidates and three threads: the three partitions have size one each,
  the last one too, so the sizes sum to three and not to four, and the fourth candidate
  is in no partition.
\<close>

theorem partition_codes_sum_short:
  "partition_codes cfg223 universe22 4 =
     Inr [\<lparr>p_index = Some 0, p_size = 1\<rparr>, \<lparr>p_index = Some 1, p_size = 1\<rparr>,
          \<lparr>p_index = Some 2, p_size = 1\<rparr>] \<and>
   sum_list (map p_size [\<lparr>p_index = Some 0, p_size = 1\<rparr>, \<lparr>p_index = Some 1, p_size = 1\<rparr>,
          \<lparr>p_index = Some 2, p_size = 1\<rparr>]) \<noteq> 4 \<and>
   3 \<notin> set (concat (map (partition_nodes universe22)
          [\<lparr>p_index = Some 0, p_size = 1\<rparr>, \<lparr>p_index = Some 1, p_size = 1\<rparr>,
           \<lparr>p_index = Some 2, p_size = 1\<rparr>]))"
  by (simp add: partition_codes_def make_partitions.simps advance.simps cfg223_def universe22_def
        min_macro_def signed_divide_int_def partition_nodes_def)

text \<open>
  Claim C3 in the first round of the session with four digits, length one, two threads,
  the initial guess \<open>0\<close> and the secret code \<open>1\<close>: three candidates remain, both partitions
  have size one, the last thread does not take the remainder, the sizes sum to two and
  not to three, and the code \<open>3\<close> is in no partition.
\<close>

theorem partition_codes_drops_remainder:
  "remaining three_left41 [1, 2, 3] \<and>
   partition_codes cfg41 three_left41 3 =
     Inr [\<lparr>p_index = Some 1, p_size = 1\<rparr>, \<lparr>p_index = Some 2, p_size = 1\<rparr>] \<and>
   sum_list (map p_size [\<lparr>p_index = Some 1, p_size = 1\<rparr>, \<lparr>p_index = Some 2, p_size = 1\<rparr>])
     \<noteq> 3 \<and>
   3 \<notin> set (concat (map (partition_nodes three_left41)
          [\<lparr>p_index = Some 1, p_size = 1\<rparr>, \<lparr>p_index = Some 2, p_size = 1\<rparr>]))"
  by (simp add: partition_codes_def make_partitions.simps advance.simps cfg41_def
        three_left41_def universe41_def min_macro_def signed_divide_int_def
        partition_nodes_def remaining_def)

section \<open>The table of offer counts\<close>

lemma make_guess_self:
  assumes "valid_code cfg g"
  shows "make_guess cfg g g = Inr \<lparr>goats = int (CODE_LENGTH cfg), chickens = 0\<rparr>"
proof -
  let ?d = "DIGITS cfg" and ?n = "CODE_LENGTH cfg"
  have e: "exact_matches ?n g g = int ?n" by (simp add: exact_full_iff)
  then have "partial_matches ?d ?n g g \<le> 0"
    using partial_le_nonexact [of ?d ?n g g] exact_plus_nonexact [of ?n g g] by linarith
  then have "partial_matches ?d ?n g g = 0"
    using partial_nonneg [of ?d ?n g g] by linarith
  then show ?thesis
    using make_guess_spec [OF assms assms] e by simp
qed

lemma offer_index_self:
  "offer_index cfg \<lparr>goats = int (CODE_LENGTH cfg), chickens = 0\<rparr>
     = int (CODE_LENGTH cfg * CODE_LENGTH cfg)"
  by (simp add: offer_index_def)

lemma self_not_in_table:
  "length tbl = CODE_LENGTH cfg * CODE_LENGTH cfg \<Longrightarrow>
   \<not> in_bounds tbl (offer_index cfg \<lparr>goats = int (CODE_LENGTH cfg), chickens = 0\<rparr>)"
  by (simp only: offer_index_self in_bounds_def nat_int) simp

lemma tally_offers_self:
  assumes "\<forall>a. node_code (all_codes s ! a) = c a"
    and "valid_code cfg guess"
    and "\<forall>a\<in>set qs. valid_code cfg (c a)"
    and "chain (all_codes s) cur qs"
    and "length tbl = CODE_LENGTH cfg * CODE_LENGTH cfg"
    and "\<exists>a\<in>set qs. c a = guess"
  shows "tally_offers cfg s guess cur tbl = Some (Inl OutOfBounds)"
  using assms
proof (induction qs arbitrary: cur tbl)
  case Nil
  then show ?case by simp
next
  case (Cons q qs)
  from Cons.prems have cur: "cur = Some q" and qlen: "q < length (all_codes s)"
    and cnext: "chain (all_codes s) (node_next (all_codes s ! q)) qs" by auto
  have cq: "node_code (all_codes s ! q) = c q" using Cons.prems by simp
  have vq: "valid_code cfg (c q)" using Cons.prems by simp
  obtain offer where mg: "make_guess cfg guess (c q) = Inr offer"
    using make_guess_spec [OF Cons.prems(2) vq] by simp
  show ?case
  proof (cases "in_bounds tbl (offer_index cfg offer)")
    case False
    then show ?thesis
      using qlen by (subst tally_offers.simps) (simp add: cur cq mg)
  next
    case True
    have "c q \<noteq> guess"
    proof
      assume "c q = guess"
      then have "offer = \<lparr>goats = int (CODE_LENGTH cfg), chickens = 0\<rparr>"
        using mg make_guess_self [OF Cons.prems(2)] by simp
      then show False using True self_not_in_table [OF Cons.prems(5)] by simp
    qed
    then have ex: "\<exists>a\<in>set qs. c a = guess" using Cons.prems(6) by auto
    let ?tbl = "tbl[nat (offer_index cfg offer) := tbl ! nat (offer_index cfg offer) + 1]"
    have len: "length ?tbl = CODE_LENGTH cfg * CODE_LENGTH cfg" using Cons.prems(5) by simp
    have vqs: "\<forall>a\<in>set qs. valid_code cfg (c a)" using Cons.prems(3) by simp
    have "tally_offers cfg s guess cur tbl
          = tally_offers cfg s guess (node_next (all_codes s ! q)) ?tbl"
      using True qlen by (subst tally_offers.simps) (simp add: cur cq mg)
    also have "\<dots> = Some (Inl OutOfBounds)"
      using Cons.IH [OF Cons.prems(1,2) vqs cnext len ex] .
    finally show ?thesis .
  qed
qed

lemma score_guess_self:
  assumes "remaining s xs" "valid_nodes cfg s xs" "g \<in> set xs"
    and "length tbl = CODE_LENGTH cfg * CODE_LENGTH cfg"
  shows "score_guess cfg s code_count g tbl = Some (Inl OutOfBounds)"
proof -
  let ?c = "\<lambda>a. node_code (all_codes s ! a)"
  have v: "\<forall>a\<in>set xs. valid_code cfg (?c a)"
    using assms(2) by (simp add: valid_nodes_def list_all_iff)
  have vg: "valid_code cfg (?c g)" using v assms(3) by simp
  have ch: "chain (all_codes s) (possible_codes s) xs"
    using assms(1) by (simp add: remaining_def)
  have gl: "g < length (all_codes s)" using ch assms(3) by (rule chain_bounds)
  have ex: "\<exists>a\<in>set xs. ?c a = ?c g" using assms(3) by blast
  have "tally_offers cfg s (?c g) (possible_codes s) tbl = Some (Inl OutOfBounds)"
    using tally_offers_self [where c = ?c, OF _ vg v ch assms(4) ex] by simp
  then show ?thesis using gl by (simp add: score_guess_def)
qed

lemma partial_zero_one_mismatch:
  assumes "length (filter (\<lambda>i. guess ! i \<noteq> target ! i) [0..<n]) = 1"
  shows "partial_matches d n guess target = 0"
proof -
  let ?P = "\<lambda>i. guess ! i \<noteq> target ! i"
  obtain x where x: "filter ?P [0..<n] = [x]"
    using assms by (cases "filter ?P [0..<n]") auto
  have zero: "min (remaining_count n guess target guess (int v))
                  (remaining_count n guess target target (int v)) = 0" for v
  proof (rule ccontr)
    assume nz: "min (remaining_count n guess target guess (int v))
                  (remaining_count n guess target target (int v)) \<noteq> 0"
    have "filter (\<lambda>i. ?P i \<and> guess ! i = int v) [0..<n] \<noteq> []"
      using nz by (auto simp: remaining_count_def)
    then obtain i where i: "i \<in> set (filter ?P [0..<n])" "guess ! i = int v"
      by (auto simp: filter_empty_conv)
    have "filter (\<lambda>i. ?P i \<and> target ! i = int v) [0..<n] \<noteq> []"
      using nz by (auto simp: remaining_count_def)
    then obtain j where j: "j \<in> set (filter ?P [0..<n])" "target ! j = int v"
      by (auto simp: filter_empty_conv)
    have "i = x" "j = x" using i(1) j(1) by (simp_all only: x) simp_all
    then have "guess ! x = target ! x" using i(2) j(2) by simp
    moreover have "x \<in> set (filter ?P [0..<n])" by (simp only: x) simp
    ultimately show False by simp
  qed
  show ?thesis
    unfolding partial_matches_def by (simp add: zero)
qed

lemma offer_index_in_table:
  assumes "valid_code cfg guess" "valid_code cfg target" "guess \<noteq> target"
    and "length tbl = CODE_LENGTH cfg * CODE_LENGTH cfg"
  shows "\<exists>offer. make_guess cfg guess target = Inr offer \<and> in_bounds tbl (offer_index cfg offer)"
proof -
  let ?d = "DIGITS cfg" and ?n = "CODE_LENGTH cfg"
  let ?e = "exact_matches ?n guess target" and ?p = "partial_matches ?d ?n guess target"
  let ?m = "int (length (filter (\<lambda>i. guess ! i \<noteq> target ! i) [0..<?n]))"
  have len: "length guess = ?n" "length target = ?n"
    using assms by (simp_all add: valid_code_def)
  have sum: "?e + ?m = int ?n" by (rule exact_plus_nonexact)
  have e0: "0 \<le> ?e" by (simp add: exact_matches_def)
  have p0: "0 \<le> ?p" by (rule partial_nonneg)
  have pm: "?p \<le> ?m" by (rule partial_le_nonexact)
  have "?e \<noteq> int ?n"
    using assms(3) len by (auto simp: exact_full_iff list_eq_iff_nth_eq)
  then have m1: "1 \<le> ?m" using sum by linarith
  have lt: "?e * int ?n + ?p < int ?n * int ?n"
  proof (cases "?m = 1")
    case True
    then have "length (filter (\<lambda>i. guess ! i \<noteq> target ! i) [0..<?n]) = 1" by simp
    then have "?p = 0" by (rule partial_zero_one_mismatch)
    moreover have "?e = int ?n - 1" using sum True by linarith
    moreover have "(int ?n - 1) * int ?n < int ?n * int ?n"
      using True sum e0 by (simp add: algebra_simps)
    ultimately show ?thesis by simp
  next
    case False
    then have m2: "2 \<le> ?m" using m1 by linarith
    have n2: "2 \<le> int ?n" using sum e0 m2 by linarith
    have "?m * 1 < ?m * int ?n"
      using m2 n2 by (intro mult_strict_left_mono) linarith+
    then have "(int ?n - ?m) * int ?n + ?m < int ?n * int ?n"
      by (simp add: algebra_simps)
    moreover have "?e = int ?n - ?m" using sum by linarith
    ultimately show ?thesis using pm by simp
  qed
  have ge: "0 \<le> ?e * int ?n + ?p" using e0 p0 by simp
  have "in_bounds tbl (?e * int ?n + ?p)"
  proof -
    have "nat (?e * int ?n + ?p) < nat (int ?n * int ?n)"
      using lt ge by linarith
    also have "nat (int ?n * int ?n) = ?n * ?n"
      by (simp add: nat_mult_distrib)
    finally show ?thesis using ge assms(4) by (simp add: in_bounds_def)
  qed
  then show ?thesis
    using make_guess_spec [OF assms(1,2)] by (simp add: offer_index_def)
qed

text \<open>
  The two remaining codes of \<open>two_left22\<close> are what the first round of a session leaves,
  and each of the two threads gets one of them.
\<close>

lemma two_left22_reached:
  "make_guess cfg22 [0, 0] [0, 1] = Inr \<lparr>goats = 1, chickens = 0\<rparr> \<and>
   remove_impossible_codes cfg22 [0, 0] \<lparr>goats = 1, chickens = 0\<rparr> universe22
     = Some (Inr (two_left22, 2)) \<and>
   partition_codes cfg22 two_left22 2
     = Inr [\<lparr>p_index = Some 1, p_size = 1\<rparr>, \<lparr>p_index = Some 2, p_size = 1\<rparr>]"
  by code_simp

text \<open>
  Claim C7 at the candidate that is the guess itself, in that state: \<open>make_guess\<close> of
  \<open>01\<close> against \<open>01\<close> gives two goats, the index
  \<open>(offer.goats * CODE_LENGTH) + offer.chickens\<close> is \<open>4\<close>, the table has
  \<open>CODE_LENGTH * CODE_LENGTH = 4\<close> entries, and the write \<open>offer_results[index] += 1\<close> is
  outside the table. Lemma \<open>offer_index_in_table\<close> shows that this is the only case: for
  different valid codes the index is inside.
\<close>

theorem tally_offers_self_outside_table:
  "make_guess cfg22 [0, 1] [0, 1] = Inr \<lparr>goats = 2, chickens = 0\<rparr> \<and>
   offer_index cfg22 \<lparr>goats = 2, chickens = 0\<rparr> = 4 \<and>
   \<not> in_bounds (replicate (CODE_LENGTH cfg22 * CODE_LENGTH cfg22) (0::int)) 4 \<and>
   tally_offers cfg22 two_left22 [0, 1] (possible_codes two_left22)
       (replicate (CODE_LENGTH cfg22 * CODE_LENGTH cfg22) 0) = Some (Inl OutOfBounds)"
  by code_simp

text \<open>
  In that state every thread ends in the write outside the table.
\<close>

lemma worker_faults_two_left:
  "score_guess cfg22 two_left22 4 1 (replicate (CODE_LENGTH cfg22 * CODE_LENGTH cfg22) 0)
     = Some (Inl OutOfBounds) \<and>
   worker cfg22 two_left22 \<lparr>p_index = Some 1, p_size = 1\<rparr> = Some (Inl OutOfBounds)"
  by code_simp

text \<open>
  With four digits and length one, the initial guess \<open>0\<close> and the secret code \<open>1\<close>, the
  first round leaves the codes \<open>1\<close>, \<open>2\<close> and \<open>3\<close>; with two threads each thread gets one
  code and the code \<open>3\<close> is in no partition.
\<close>

lemma init_globals_cfg41: "init_globals cfg41 = Inr universe41"
  by (simp add: init_globals_def init_nodes.simps CODE_COUNT_def cfg41_def universe41_def
        int_to_code_def int_to_code_loop.simps in_bounds_def signed_divide_int_def
        signed_modulo_int_def)

lemma three_left41_reached:
  "make_guess cfg41 [0] [1] = Inr \<lparr>goats = 0, chickens = 0\<rparr> \<and>
   remove_impossible_codes cfg41 [0] \<lparr>goats = 0, chickens = 0\<rparr> universe41
     = Some (Inr (three_left41, 3)) \<and>
   partition_codes cfg41 three_left41 3
     = Inr [\<lparr>p_index = Some 1, p_size = 1\<rparr>, \<lparr>p_index = Some 2, p_size = 1\<rparr>] \<and>
   CODE_COUNT cfg41 = Inr 4"
  by code_simp

text \<open>
  Claim C2 at the guess \<open>1\<close> of the first thread in that round. Against the candidates
  \<open>1\<close>, \<open>2\<close>, \<open>3\<close> the feedback pairs are (1,0), (0,0), (0,0): the buckets hold one and two
  candidates and the minimum nonzero bucket count is \<open>1\<close>. The table has one entry; the
  count of (1,0), the guess against itself, is written at index \<open>1\<close>, outside the table.
  On a block of memory that is one cell longer than the table the write lands in that
  cell, the loop that takes the minimum reads the table only, and the score is \<open>2\<close>.
\<close>

theorem score_guess_misses_own_bucket:
  "score_guess cfg41 three_left41 4 1 (replicate (CODE_LENGTH cfg41 * CODE_LENGTH cfg41) 0)
     = Some (Inl OutOfBounds) \<and>
   score_guess cfg41 three_left41 4 1 (replicate (CODE_LENGTH cfg41 * CODE_LENGTH cfg41) 0 @ [0])
     = Some (Inr ([0, 1], 2)) \<and>
   min_nonzero_bucket_count cfg41 [1] [[1], [2], [3]] = 1"
  by code_simp

lemma offer_index_collision:
  "offer_index cfg22 \<lparr>goats = 0, chickens = 2\<rparr> = offer_index cfg22 \<lparr>goats = 1, chickens = 0\<rparr>"
  by (simp add: offer_index_def cfg22_def)

section \<open>Rounds of the session\<close>

lemma init_globals_cfg22: "init_globals cfg22 = Inr universe22"
  by (simp add: init_globals_def init_nodes.simps CODE_COUNT_def cfg22_def universe22_def
        int_to_code_def int_to_code_loop.simps in_bounds_def signed_divide_int_def
        signed_modulo_int_def numeral_2_eq_2)

lemma play_round_first_round:
  "play_round cfg22 universe22 [0, 0] [0, 1] = Some (Inl OutOfBounds)"
  by code_simp

lemma play_round_no_scoring:
  "play_round cfg22 universe22 [0, 1] [1, 0] = Some (Inr (NextGuess [1, 0] pruned22))"
  by code_simp

lemma play_round_solved_iff:
  assumes "valid_code cfg guess" "valid_code cfg code"
  shows "play_round cfg s guess code = Some (Inr Solved) \<longleftrightarrow> guess = code"
proof
  assume "guess = code"
  then show "play_round cfg s guess code = Some (Inr Solved)"
    using make_guess_self [OF assms(1)] by (simp add: play_round_def solved_def)
next
  assume r: "play_round cfg s guess code = Some (Inr Solved)"
  have len: "length guess = CODE_LENGTH cfg" "length code = CODE_LENGTH cfg"
    using assms by (simp_all add: valid_code_def)
  obtain offer where mg: "make_guess cfg guess code = Inr offer"
    and g: "goats offer = exact_matches (CODE_LENGTH cfg) guess code"
    using make_guess_spec [OF assms] by simp
  have iff: "solved cfg offer \<longleftrightarrow> guess = code"
    using len by (auto simp: solved_def g exact_full_iff list_eq_iff_nth_eq)
  show "guess = code"
  proof (rule ccontr)
    assume "guess \<noteq> code"
    then have "\<not> solved cfg offer" using iff by simp
    then show False
      using r mg
      by (auto simp: play_round_def select_guess_def
               split: option.splits sum.splits prod.splits if_splits)
  qed
qed



end
